theory Spec2Isabelle
  imports Complex_Main "HOL-Library.Product_Lexorder" "HOL-Library.AList" "HOL-Library.Multiset"
begin

section \<open>Finance tracker: value parsing, the observation store and the series builders\<close>

text \<open>
  The development embeds \<^verbatim>\<open>app.py\<close> (the Flask application: models, parsers, series
  builders, route handlers) and \<^verbatim>\<open>import.py\<close> (the CSV import script).

  Python strings are modelled as \<open>string\<close> restricted to ASCII: every character
  class below (whitespace, digits, letter case) is the ASCII part of Python's class.
  Python exceptions are values of the type \<open>error\<close>; a function that may raise returns
  \<open>error + 'a\<close> with \<open>Inl\<close> for the exception.
\<close>

subsection \<open>Exceptions\<close>

datatype error =
    ValueError string
  | AttributeError string
  | KeyError string
  | IntegrityError string
  | InvalidOperation

subsection \<open>String primitives of Python used by the source\<close>

text \<open>\<^verbatim>\<open>str.isspace\<close> on ASCII: TAB, LF, VT, FF, CR, the separators 0x1C..0x1F, and space.\<close>

definition is_space :: "char \<Rightarrow> bool" where
  "is_space c \<longleftrightarrow> (of_char c :: nat) \<in> {9, 10, 11, 12, 13, 28, 29, 30, 31, 32}"

text \<open>\<^verbatim>\<open>s.strip()\<close>\<close>

definition strip :: "string \<Rightarrow> string" where
  "strip s = rev (dropWhile is_space (rev (dropWhile is_space s)))"

text \<open>\<^verbatim>\<open>s.replace(a, new)\<close> for a one-character \<^verbatim>\<open>a\<close>, the only use in the source.\<close>

definition replace :: "char \<Rightarrow> string \<Rightarrow> string \<Rightarrow> string" where
  "replace a new s = concat (map (\<lambda>c. if c = a then new else [c]) s)"

text \<open>\<^verbatim>\<open>s.rfind(a)\<close>: the highest index of \<^verbatim>\<open>a\<close>, or -1.\<close>

fun rfind_from :: "char \<Rightarrow> string \<Rightarrow> int \<Rightarrow> int \<Rightarrow> int" where
  "rfind_from a [] i found = found"
| "rfind_from a (c # cs) i found = rfind_from a cs (i + 1) (if c = a then i else found)"

definition rfind :: "char \<Rightarrow> string \<Rightarrow> int" where
  "rfind a s = rfind_from a s 0 (-1)"

text \<open>\<^verbatim>\<open>s.lower()\<close> on ASCII.\<close>

definition lower_char :: "char \<Rightarrow> char" where
  "lower_char c =
     (let n = (of_char c :: nat) in if 65 \<le> n \<and> n \<le> 90 then char_of (n + 32) else c)"

definition lower :: "string \<Rightarrow> string" where
  "lower s = map lower_char s"

definition is_digit :: "char \<Rightarrow> bool" where
  "is_digit c \<longleftrightarrow> (let n = (of_char c :: nat) in 48 \<le> n \<and> n \<le> 57)"

definition digit_val :: "char \<Rightarrow> nat" where
  "digit_val c = (of_char c :: nat) - 48"

definition digit_char :: "nat \<Rightarrow> char" where
  "digit_char n = char_of (48 + n)"

text \<open>\<^verbatim>\<open>int(s)\<close> on a string of decimal digits (the empty string is never passed).\<close>

definition nat_of_digits :: "string \<Rightarrow> nat" where
  "nat_of_digits s = foldl (\<lambda>a c. 10 * a + digit_val c) 0 s"

text \<open>\<^verbatim>\<open>str(n)\<close> for a non-negative integer.\<close>

fun digits_of :: "nat \<Rightarrow> string" where
  "digits_of n = (if n < 10 then [digit_char n] else digits_of (n div 10) @ [digit_char (n mod 10)])"

declare digits_of.simps [simp del]

subsection \<open>The \<^verbatim>\<open>decimal.Decimal\<close> values the parser produces\<close>

text \<open>
  A \<^verbatim>\<open>Decimal\<close> is a sign, a coefficient and an exponent (\<open>Finite\<close>), an infinity, or a
  NaN with a sign, a signalling flag and a payload (payload 0 is the empty payload).
  The library is modelled after its reference implementation \<^verbatim>\<open>_pydecimal\<close>, in the
  default context: precision 28, rounding \<^verbatim>\<open>ROUND_HALF_EVEN\<close>, \<^verbatim>\<open>Emax\<close> 999999,
  \<^verbatim>\<open>clamp\<close> 0, \<^verbatim>\<open>InvalidOperation\<close> trapped.
\<close>

datatype decimal =
    Finite (d_sign: bool) (d_coeff: nat) (d_exp: int)
  | Infinite bool
  | NaN bool bool nat

definition ctx_prec :: nat where
  "ctx_prec = 28"

definition ctx_Emax :: int where
  "ctx_Emax = 999999"

text \<open>The sign prefix \<^verbatim>\<open>[-+]?\<close> of a numeric string.\<close>

definition split_sign :: "string \<Rightarrow> bool \<times> string" where
  "split_sign s =
     (case s of
        [] \<Rightarrow> (False, [])
      | c # r \<Rightarrow> if c = CHR ''-'' then (True, r) else if c = CHR ''+'' then (False, r) else (False, s))"

text \<open>The exponent part \<^verbatim>\<open>(E[-+]?\d+)?\<close> followed by the end of the string.\<close>

definition parse_exponent :: "string \<Rightarrow> int option" where
  "parse_exponent s =
     (case s of
        [] \<Rightarrow> Some 0
      | c # r \<Rightarrow>
          if lower_char c = CHR ''e'' then
            (let (neg, ds) = split_sign r in
             if ds \<noteq> [] \<and> list_all is_digit ds
             then Some (if neg then - int (nat_of_digits ds) else int (nat_of_digits ds))
             else None)
          else None)"

text \<open>
  The finite alternative of the parser's regular expression:
  \<^verbatim>\<open>(?=\d|\.\d)(?P<int>\d*)(\.(?P<frac>\d*))?(E(?P<exp>[-+]?\d+))?\Z\<close>,
  with coefficient \<^verbatim>\<open>int(intpart + fracpart)\<close> and exponent \<^verbatim>\<open>exp - len(fracpart)\<close>.
\<close>

definition parse_finite :: "string \<Rightarrow> (nat \<times> int) option" where
  "parse_finite s =
     (let intpart = takeWhile is_digit s;
          r1 = dropWhile is_digit s;
          (fracpart, r2) =
             (case r1 of
                [] \<Rightarrow> ([], r1)
              | c # r \<Rightarrow> if c = CHR ''.'' then (takeWhile is_digit r, dropWhile is_digit r) else ([], r1))
      in if intpart = [] \<and> fracpart = [] then None
         else (case parse_exponent r2 of
                 None \<Rightarrow> None
               | Some e \<Rightarrow> Some (nat_of_digits (intpart @ fracpart), e - int (length fracpart))))"

text \<open>The NaN alternative \<^verbatim>\<open>(?P<signal>s)?NaN(?P<diag>\d*)\Z\<close>, matched ignoring case.\<close>

definition parse_nan :: "string \<Rightarrow> (bool \<times> nat) option" where
  "parse_nan s =
     (let (signal, r) = (case s of
                           [] \<Rightarrow> (False, [])
                         | c # r' \<Rightarrow> if lower_char c = CHR ''s'' then (True, r') else (False, s))
      in if lower (take 3 r) = ''nan'' \<and> list_all is_digit (drop 3 r)
         then Some (signal, nat_of_digits (drop 3 r))
         else None)"

text \<open>
  \<^verbatim>\<open>Decimal(s)\<close> for a string: the constructor strips whitespace, deletes underscores and
  matches the regular expression; no match raises \<^verbatim>\<open>InvalidOperation\<close> (\<open>None\<close>).
\<close>

definition Decimal :: "string \<Rightarrow> decimal option" where
  "Decimal s =
     (let (neg, r) = split_sign (replace CHR ''_'' [] (strip s)) in
      case parse_finite r of
        Some (c, e) \<Rightarrow> Some (Finite neg c e)
      | None \<Rightarrow>
          if lower r = ''inf'' \<or> lower r = ''infinity'' then Some (Infinite neg)
          else (case parse_nan r of
                  Some (signal, payload) \<Rightarrow> Some (NaN neg signal payload)
                | None \<Rightarrow> None))"

text \<open>\<^verbatim>\<open>len(self._int)\<close>: the number of digits of the coefficient.\<close>

definition ndigits :: "nat \<Rightarrow> nat" where
  "ndigits n = length (digits_of n)"

text \<open>
  \<^verbatim>\<open>_rescale(exp, ROUND_HALF_EVEN)\<close> on a non-zero finite value: pad with zeros when the
  exponent does not grow; otherwise drop \<open>k\<close> digits and round the kept coefficient up
  when the dropped part is above one half, or exactly one half with an odd kept digit.
\<close>

definition rescale_half_even :: "nat \<Rightarrow> int \<Rightarrow> int \<Rightarrow> nat" where
  "rescale_half_even c e target =
     (if e \<ge> target then c * 10 ^ nat (e - target)
      else (let k = nat (target - e);
                q = c div 10 ^ k;
                r = c mod 10 ^ k;
                half = 5 * 10 ^ (k - 1)
            in if r > half \<or> (r = half \<and> odd q) then q + 1 else q))"

text \<open>
  \<^verbatim>\<open>d.quantize(Decimal("0.01"))\<close> with the exponent of the second operand as \<open>target\<close>.
  A signalling NaN and an infinity raise; a quiet NaN is returned with its payload cut
  to the precision; a result of more than \<open>ctx_prec\<close> digits raises.
\<close>

definition quantize :: "int \<Rightarrow> decimal \<Rightarrow> decimal option" where
  "quantize target d =
     (case d of
        NaN neg signal payload \<Rightarrow>
          if signal then None else Some (NaN neg False (payload mod 10 ^ ctx_prec))
      | Infinite neg \<Rightarrow> None
      | Finite neg c e \<Rightarrow>
          if c = 0 then Some (Finite neg 0 target)
          else (let adjusted = e + int (ndigits c) - 1 in
                if adjusted > ctx_Emax then None
                else if adjusted - target + 1 > int ctx_prec then None
                else (let c' = rescale_half_even c e target in
                      if ndigits c' > ctx_prec then None
                      else Some (Finite neg c' target))))"





subsection \<open>Amount parsing\<close>

text \<open>
  Lines 82..93 of \<^verbatim>\<open>app.py\<close> and 33..44 of \<^verbatim>\<open>import.py\<close> (the same text in both
  files): the separator normalisation applied to the stripped input.
\<close>

definition normalize_separators :: "string \<Rightarrow> string" where
  "normalize_separators s =
     (if CHR '','' \<in> set s \<and> CHR ''.'' \<in> set s then
        (if rfind CHR '','' s > rfind CHR ''.'' s
         then replace CHR '','' ''.'' (replace CHR ''.'' [] s)
         else replace CHR '','' [] s)
      else
        (if CHR '','' \<in> set s \<and> CHR ''.'' \<notin> set s then replace CHR '','' ''.'' s else s))"

text \<open>\<^verbatim>\<open>parse_decimal\<close> of \<^verbatim>\<open>app.py\<close>; the argument is \<open>None\<close> for Python's \<^verbatim>\<open>None\<close>.\<close>

definition parse_decimal :: "string option \<Rightarrow> error + decimal" where
  "parse_decimal v =
     (case v of
        None \<Rightarrow> Inl (ValueError ''missing'')
      | Some val \<Rightarrow>
          (let s = strip val in
           if s = [] then Inl (ValueError ''missing'')
           else (case Decimal (normalize_separators s) of
                   None \<Rightarrow> Inl (ValueError ''invalid number'')
                 | Some d \<Rightarrow>
                     (case quantize (-2) d of
                        None \<Rightarrow> Inl (ValueError ''invalid number'')
                      | Some q \<Rightarrow> Inr q))))"

text \<open>\<^verbatim>\<open>parse_decimal\<close> of \<^verbatim>\<open>import.py\<close>: the same, with the raw value in the message.\<close>

definition import_parse_decimal :: "string option \<Rightarrow> error + decimal" where
  "import_parse_decimal v =
     (case v of
        None \<Rightarrow> Inl (ValueError ''missing'')
      | Some val \<Rightarrow>
          (let s = strip val in
           if s = [] then Inl (ValueError ''missing'')
           else (case Decimal (normalize_separators s) of
                   None \<Rightarrow> Inl (ValueError (''invalid number: '' @ val))
                 | Some d \<Rightarrow>
                     (case quantize (-2) d of
                        None \<Rightarrow> Inl (ValueError (''invalid number: '' @ val))
                      | Some q \<Rightarrow> Inr q))))"

text \<open>
  Rule 2 of the specification in its own words, for comparison with
  \<open>normalize_separators\<close>: the separator that occurs rightmost is the decimal
  separator and is read as the decimal point, every occurrence of the other one is
  removed.
\<close>

definition rightmost_separator :: "string \<Rightarrow> char" where
  "rightmost_separator s = last (filter (\<lambda>c. c = CHR '','' \<or> c = CHR ''.'') s)"

definition read_rightmost_as_decimal :: "string \<Rightarrow> string" where
  "read_rightmost_as_decimal s =
     (let dec = rightmost_separator s;
          other = (if dec = CHR '','' then CHR ''.'' else CHR '','')
      in map (\<lambda>c. if c = dec then CHR ''.'' else c) (filter (\<lambda>c. c \<noteq> other) s))"

subsection \<open>Calendar dates and \<^verbatim>\<open>datetime.strptime\<close>\<close>

text \<open>
  A \<^verbatim>\<open>datetime.date\<close> is (year, month, day); the lexicographic order on the triple is
  the chronological order.
\<close>

type_synonym date = "nat \<times> nat \<times> nat"

definition is_leap :: "nat \<Rightarrow> bool" where
  "is_leap y \<longleftrightarrow> y mod 4 = 0 \<and> (y mod 100 \<noteq> 0 \<or> y mod 400 = 0)"

definition days_in_month :: "nat \<Rightarrow> nat \<Rightarrow> nat" where
  "days_in_month y m =
     (if m = 2 then (if is_leap y then 29 else 28)
      else if m \<in> {4, 6, 9, 11} then 30 else 31)"

text \<open>The dates \<^verbatim>\<open>datetime.date(y, m, d)\<close> accepts (\<^verbatim>\<open>MINYEAR\<close> 1, \<^verbatim>\<open>MAXYEAR\<close> 9999).\<close>

definition valid_date :: "date \<Rightarrow> bool" where
  "valid_date dt =
     (case dt of (y, m, d) \<Rightarrow>
        1 \<le> y \<and> y \<le> 9999 \<and> 1 \<le> m \<and> m \<le> 12 \<and> 1 \<le> d \<and> d \<le> days_in_month y m)"

text \<open>\<^verbatim>\<open>s.zfill(w)\<close> on a digit string, and \<^verbatim>\<open>d.isoformat()\<close> (\<^verbatim>\<open>iso\<close> in \<^verbatim>\<open>app.py\<close>).\<close>

definition zfill :: "nat \<Rightarrow> string \<Rightarrow> string" where
  "zfill w s = replicate (w - length s) CHR ''0'' @ s"

definition iso :: "date \<Rightarrow> string" where
  "iso dt =
     (case dt of (y, m, d) \<Rightarrow>
        zfill 4 (digits_of y) @ ''-'' @ zfill 2 (digits_of m) @ ''-'' @ zfill 2 (digits_of d))"

text \<open>
  \<^verbatim>\<open>strptime\<close> compiles the format into a regular expression and matches it at the
  start of the data with backtracking. Each directive below returns, in the order the
  regular expression tries them, every way it can match a prefix: the value read and
  the rest of the string.
  \<^item> \<^verbatim>\<open>%Y\<close> is \<^verbatim>\<open>\d\d\d\d\<close>;
  \<^item> \<^verbatim>\<open>%m\<close> is \<^verbatim>\<open>1[0-2]|0[1-9]|[1-9]\<close>;
  \<^item> \<^verbatim>\<open>%d\<close> is \<^verbatim>\<open>3[0-1]|[1-2]\d|0[1-9]|[1-9]| [1-9]\<close>.
\<close>

definition in_range :: "char \<Rightarrow> char \<Rightarrow> char \<Rightarrow> bool" where
  "in_range lo hi c \<longleftrightarrow> (of_char lo :: nat) \<le> of_char c \<and> (of_char c :: nat) \<le> of_char hi"

definition alt2 :: "(char \<Rightarrow> bool) \<Rightarrow> (char \<Rightarrow> bool) \<Rightarrow> string \<Rightarrow> (nat \<times> string) list" where
  "alt2 P Q s =
     (case s of
        a # b # r \<Rightarrow> if P a \<and> Q b then [(10 * digit_val a + digit_val b, r)] else []
      | _ \<Rightarrow> [])"

definition alt1 :: "(char \<Rightarrow> bool) \<Rightarrow> string \<Rightarrow> (nat \<times> string) list" where
  "alt1 P s = (case s of a # r \<Rightarrow> if P a then [(digit_val a, r)] else [] | _ \<Rightarrow> [])"

definition alt_space :: "(char \<Rightarrow> bool) \<Rightarrow> string \<Rightarrow> (nat \<times> string) list" where
  "alt_space P s =
     (case s of
        a # b # r \<Rightarrow> if a = CHR '' '' \<and> P b then [(digit_val b, r)] else []
      | _ \<Rightarrow> [])"

definition re_Y :: "string \<Rightarrow> (nat \<times> string) list" where
  "re_Y s =
     (if 4 \<le> length s \<and> list_all is_digit (take 4 s)
      then [(nat_of_digits (take 4 s), drop 4 s)] else [])"

definition re_m :: "string \<Rightarrow> (nat \<times> string) list" where
  "re_m s =
     alt2 (\<lambda>c. c = CHR ''1'') (in_range CHR ''0'' CHR ''2'') s
     @ alt2 (\<lambda>c. c = CHR ''0'') (in_range CHR ''1'' CHR ''9'') s
     @ alt1 (in_range CHR ''1'' CHR ''9'') s"

definition re_d :: "string \<Rightarrow> (nat \<times> string) list" where
  "re_d s =
     alt2 (\<lambda>c. c = CHR ''3'') (in_range CHR ''0'' CHR ''1'') s
     @ alt2 (in_range CHR ''1'' CHR ''2'') is_digit s
     @ alt2 (\<lambda>c. c = CHR ''0'') (in_range CHR ''1'' CHR ''9'') s
     @ alt1 (in_range CHR ''1'' CHR ''9'') s
     @ alt_space (in_range CHR ''1'' CHR ''9'') s"

definition lit :: "char \<Rightarrow> string \<Rightarrow> string list" where
  "lit c s = (case s of [] \<Rightarrow> [] | x # r \<Rightarrow> if x = c then [r] else [])"

text \<open>
  What \<^verbatim>\<open>strptime\<close> does with the matches: no match raises; the first match must
  have consumed the whole string; the date constructor checks the calendar. Every
  failure is a \<^verbatim>\<open>ValueError\<close> (the library's messages quote the data; they are shortened
  here).
\<close>

definition strptime_finish :: "(date \<times> string) list \<Rightarrow> error + date" where
  "strptime_finish ms =
     (case ms of
        [] \<Rightarrow> Inl (ValueError ''time data does not match format'')
      | (dt, rest) # _ \<Rightarrow>
          if rest \<noteq> [] then Inl (ValueError ''unconverted data remains'')
          else if valid_date dt then Inr dt
          else Inl (ValueError ''date value out of range''))"

text \<open>\<^verbatim>\<open>datetime.strptime(s, "%Y-%m-%d").date()\<close>\<close>

definition strptime_Ymd :: "string \<Rightarrow> error + date" where
  "strptime_Ymd s =
     strptime_finish
       [((y, m, d), r5).
          (y, r1) \<leftarrow> re_Y s, r2 \<leftarrow> lit CHR ''-'' r1,
          (m, r3) \<leftarrow> re_m r2, r4 \<leftarrow> lit CHR ''-'' r3,
          (d, r5) \<leftarrow> re_d r4]"

text \<open>\<^verbatim>\<open>datetime.strptime(s, "%d.%m.%Y").date()\<close>\<close>

definition strptime_dmY :: "string \<Rightarrow> error + date" where
  "strptime_dmY s =
     strptime_finish
       [((y, m, d), r5).
          (d, r1) \<leftarrow> re_d s, r2 \<leftarrow> lit CHR ''.'' r1,
          (m, r3) \<leftarrow> re_m r2, r4 \<leftarrow> lit CHR ''.'' r3,
          (y, r5) \<leftarrow> re_Y r4]"

subsection \<open>Date parsing\<close>

text \<open>
  \<^verbatim>\<open>parse_date\<close> of \<^verbatim>\<open>app.py\<close>. \<^verbatim>\<open>date.today()\<close> reads the clock: the current date is
  the parameter \<open>today\<close>. \<^verbatim>\<open>not value\<close> holds for \<^verbatim>\<open>None\<close> and for the empty string.
\<close>

definition parse_date :: "date \<Rightarrow> string option \<Rightarrow> error + date" where
  "parse_date today v =
     (case v of
        None \<Rightarrow> Inr today
      | Some val \<Rightarrow>
          if val = [] then Inr today
          else (case strptime_Ymd val of
                  Inl e \<Rightarrow> Inl (ValueError ''invalid date'')
                | Inr d \<Rightarrow> Inr d))"

text \<open>\<^verbatim>\<open>parse_date_ddmmyyyy\<close> of \<^verbatim>\<open>import.py\<close>: the error of \<^verbatim>\<open>strptime\<close> is not caught.\<close>

definition parse_date_ddmmyyyy :: "string option \<Rightarrow> error + date" where
  "parse_date_ddmmyyyy v =
     (let val = strip (case v of None \<Rightarrow> [] | Some x \<Rightarrow> x) in
      if val = [] then Inl (ValueError ''Empty date'')
      else strptime_dmY val)"

text \<open>
  The two formats in the words of the specification: \<open>iso_format\<close> holds of the strings
  of the shape YYYY-MM-DD and \<open>dmy_format\<close> of the strings of the shape DD.MM.YYYY, all
  positions digits; \<open>dmy\<close> is the day-first rendering of a date with leading zeros.
  \<open>month_forms\<close> and \<open>day_forms\<close> list the ways a month and a day number can be written:
  with two digits, and below ten also with one digit, a day also with a space before
  its digit. \<open>ymd_renderings\<close> and \<open>dmy_renderings\<close> combine them with the four-digit
  year in the order of the two formats.
\<close>

definition iso_format :: "string \<Rightarrow> bool" where
  "iso_format s \<longleftrightarrow>
     length s = 10 \<and> list_all is_digit (take 4 s) \<and> s ! 4 = CHR ''-'' \<and>
     list_all is_digit (take 2 (drop 5 s)) \<and> s ! 7 = CHR ''-'' \<and> list_all is_digit (drop 8 s)"

definition dmy_format :: "string \<Rightarrow> bool" where
  "dmy_format s \<longleftrightarrow>
     length s = 10 \<and> list_all is_digit (take 2 s) \<and> s ! 2 = CHR ''.'' \<and>
     list_all is_digit (take 2 (drop 3 s)) \<and> s ! 5 = CHR ''.'' \<and> list_all is_digit (drop 6 s)"

definition month_forms :: "nat \<Rightarrow> string list" where
  "month_forms m = zfill 2 (digits_of m) # (if m < 10 then [digits_of m] else [])"

definition day_forms :: "nat \<Rightarrow> string list" where
  "day_forms d =
     zfill 2 (digits_of d) # (if d < 10 then [digits_of d, CHR '' '' # digits_of d] else [])"

definition ymd_renderings :: "date \<Rightarrow> string list" where
  "ymd_renderings dt =
     (case dt of (y, m, d) \<Rightarrow>
        [zfill 4 (digits_of y) @ ''-'' @ ms @ ''-'' @ ds. ms \<leftarrow> month_forms m, ds \<leftarrow> day_forms d])"

definition dmy_renderings :: "date \<Rightarrow> string list" where
  "dmy_renderings dt =
     (case dt of (y, m, d) \<Rightarrow>
        [ds @ ''.'' @ ms @ ''.'' @ zfill 4 (digits_of y). ds \<leftarrow> day_forms d, ms \<leftarrow> month_forms m])"

definition dmy :: "date \<Rightarrow> string" where
  "dmy dt =
     (case dt of (y, m, d) \<Rightarrow>
        zfill 2 (digits_of d) @ ''.'' @ zfill 2 (digits_of m) @ ''.'' @ zfill 4 (digits_of y))"

subsection \<open>The store\<close>

text \<open>
  The two tables of the database, each a list of rows in insertion order. Timestamps
  (\<^verbatim>\<open>datetime.utcnow\<close>) are natural numbers supplied by the caller.
\<close>

record account =
  acc_id :: nat
  name :: string
  account_type :: string
  monthly_payment_enabled :: bool
  monthly_payment_amount :: decimal
  acc_created_at :: nat

record balance_point =
  point_id :: nat
  account_id :: nat
  as_of_date :: date
  balance :: decimal
  created_at :: nat

record database =
  accounts :: "account list"
  balance_points :: "balance_point list"

text \<open>The table constraint \<^verbatim>\<open>UniqueConstraint("account_id", "as_of_date")\<close>.\<close>

definition uq_account_date :: "balance_point list \<Rightarrow> bool" where
  "uq_account_date ps \<longleftrightarrow> distinct (map (\<lambda>p. (account_id p, as_of_date p)) ps)"

text \<open>A new integer primary key: one more than the largest key in the table.\<close>

definition new_id :: "nat list \<Rightarrow> nat" where
  "new_id ids = Suc (fold max ids 0)"

text \<open>
  The relationship \<^verbatim>\<open>Account.balances\<close>: the account's rows ordered by
  \<^verbatim>\<open>desc(as_of_date), desc(created_at)\<close>; and the two derived properties.
\<close>

definition account_balances :: "database \<Rightarrow> account \<Rightarrow> balance_point list" where
  "account_balances db acc =
     rev (sort_key (\<lambda>p. (as_of_date p, created_at p))
            (filter (\<lambda>p. account_id p = acc_id acc) (balance_points db)))"

definition current_balance :: "database \<Rightarrow> account \<Rightarrow> decimal" where
  "current_balance db acc =
     (case account_balances db acc of
        [] \<Rightarrow> Finite False 0 (-2)
      | p # _ \<Rightarrow> balance p)"

definition monthly_payment :: "account \<Rightarrow> decimal" where
  "monthly_payment acc =
     (if \<not> monthly_payment_enabled acc then Finite False 0 (-2)
      else monthly_payment_amount acc)"

subsection \<open>The \<^verbatim>\<open>Numeric(18, 2)\<close> columns\<close>

text \<open>
  The amounts are kept in \<^verbatim>\<open>Numeric(18, 2)\<close> columns declared \<^verbatim>\<open>nullable=False\<close>. What a
  row holds after a write is what the database driver makes of the \<^verbatim>\<open>Decimal\<close>; the
  handlers below take this conversion as the parameter \<open>col\<close>: \<open>col d\<close> is the value
  read back from the column after \<open>d\<close> was written, or \<open>None\<close> when the statement fails
  and the transaction is lost.

  \<open>sqlite_numeric\<close> is the conversion of the configured database
  (\<^verbatim>\<open>sqlite:///finance.db\<close>). SQLAlchemy has no native decimal for SQLite: it binds
  \<^verbatim>\<open>float(d)\<close> and reads the column back as \<^verbatim>\<open>Decimal("%.2f" % value)\<close>. SQLite stores a
  NaN as \<^verbatim>\<open>NULL\<close>, which the column refuses (and \<^verbatim>\<open>float\<close> raises on a signalling
  NaN), and keeps a zero of either sign as the integer 0. \<^verbatim>\<open>float\<close> is the nearest binary64 number, ties to the even significand;
  the double is represented by its significand \<open>m\<close> and exponent \<open>k\<close>, value \<open>m * 2 ^ k\<close>.
\<close>

fun ilog2 :: "nat \<Rightarrow> nat" where
  "ilog2 n = (if n < 2 then 0 else Suc (ilog2 (n div 2)))"

declare ilog2.simps [simp del]

text \<open>The integer nearest to \<open>a / b\<close>, a tie going to the even one.\<close>

definition round_half_even :: "nat \<Rightarrow> nat \<Rightarrow> nat" where
  "round_half_even a b =
     (let q = a div b; r = a mod b
      in if 2 * r > b \<or> (2 * r = b \<and> odd q) then q + 1 else q)"

text \<open>The fraction \<open>a / b\<close> times \<open>2 ^ k\<close>, again as a fraction.\<close>

definition times_pow2 :: "nat \<times> nat \<Rightarrow> int \<Rightarrow> nat \<times> nat" where
  "times_pow2 q k =
     (case q of (a, b) \<Rightarrow> if k \<ge> 0 then (a * 2 ^ nat k, b) else (a, b * 2 ^ nat (- k)))"

text \<open>The largest \<open>g\<close> with \<open>2 ^ g \<le> a / b\<close>, for positive \<open>a\<close> and \<open>b\<close>.\<close>

definition floor_log2 :: "nat \<Rightarrow> nat \<Rightarrow> int" where
  "floor_log2 a b =
     (let g = int (ilog2 a) - int (ilog2 b)
      in case times_pow2 (a, b) (- g) of (a', b') \<Rightarrow> if a' \<ge> b' then g else g - 1)"

text \<open>
  \<^verbatim>\<open>float\<close> of the positive number \<open>a / b\<close>: 53 significant bits, exponents from -1022
  (below that the spacing stays \<open>2 ^ -1074\<close>), and \<open>None\<close> for the overflow to infinity.
\<close>

definition double_of :: "nat \<Rightarrow> nat \<Rightarrow> (nat \<times> int) option" where
  "double_of a b =
     (let E = max (floor_log2 a b) (- 1022);
          k = E - 52
      in case times_pow2 (a, b) (- k) of (a', b') \<Rightarrow>
           (let m = round_half_even a' b'
            in if k \<ge> 0 \<and> m * 2 ^ nat k \<ge> 2 ^ 1024 then None else Some (m, k)))"

text \<open>The hundredths printed by \<^verbatim>\<open>"%.2f"\<close> for the double \<open>m * 2 ^ k\<close>.\<close>

definition format_2f :: "nat \<Rightarrow> int \<Rightarrow> nat" where
  "format_2f m k = (case times_pow2 (m * 100, 1) k of (a, b) \<Rightarrow> round_half_even a b)"

definition sqlite_numeric :: "decimal \<Rightarrow> decimal option" where
  "sqlite_numeric d =
     (case d of
        NaN neg signal payload \<Rightarrow> None
      | Infinite neg \<Rightarrow> Some (Infinite neg)
      | Finite neg c e \<Rightarrow>
          if c = 0 then Some (Finite False 0 (-2))
          else (case double_of (if e \<ge> 0 then c * 10 ^ nat e else c)
                               (if e \<ge> 0 then 1 else 10 ^ nat (- e)) of
                  None \<Rightarrow> Some (Infinite neg)
                | Some (m, k) \<Rightarrow>
                    if m = 0 then Some (Finite False 0 (-2))
                    else Some (Finite neg (format_2f m k) (-2))))"

subsection \<open>Series builders\<close>

text \<open>
  \<^verbatim>\<open>float(p.balance)\<close> is the parameter \<open>to_float\<close>, and \<^verbatim>\<open>0.0\<close> is the zero of the type
  of floats: nothing below depends on how a \<^verbatim>\<open>Decimal\<close> is rounded to a float.
\<close>

definition build_account_series ::
  "(decimal \<Rightarrow> 'f) \<Rightarrow> database \<Rightarrow> account \<Rightarrow> string list \<times> 'f list" where
  "build_account_series to_float db acc =
     (let points = sort_key as_of_date
                     (filter (\<lambda>p. account_id p = acc_id acc) (balance_points db));
          labels = map (\<lambda>p. iso (as_of_date p)) points;
          vals = map (\<lambda>p. to_float (balance p)) points
      in (labels, vals))"

record 'f dataset =
  label :: string
  data :: "'f list"

text \<open>The loop over \<^verbatim>\<open>all_dates\<close> with the running \<^verbatim>\<open>last_value\<close>.\<close>

fun carry_forward :: "(date \<rightharpoonup> 'f) \<Rightarrow> 'f \<Rightarrow> date list \<Rightarrow> 'f list" where
  "carry_forward date_to_balance last_value [] = []"
| "carry_forward date_to_balance last_value (d # ds) =
     (let last_value' = (case date_to_balance d of Some v \<Rightarrow> v | None \<Rightarrow> last_value)
      in last_value' # carry_forward date_to_balance last_value' ds)"

text \<open>
  The \<^verbatim>\<open>defaultdict(dict)\<close> filled from the rows in query order: a later row for the
  same account and date replaces the earlier entry.
\<close>

definition per_account_of ::
  "(decimal \<Rightarrow> 'f) \<Rightarrow> balance_point list \<Rightarrow> nat \<Rightarrow> (date \<rightharpoonup> 'f)" where
  "per_account_of to_float all_points =
     foldl (\<lambda>m p. m(account_id p := (m (account_id p))(as_of_date p \<mapsto> to_float (balance p))))
       (\<lambda>_. Map.empty) all_points"

definition build_stacked_series ::
  "(decimal \<Rightarrow> 'f::zero) \<Rightarrow> database \<Rightarrow> account list \<Rightarrow> string list \<times> 'f dataset list" where
  "build_stacked_series to_float db accs =
     (let all_points = sort_key as_of_date (balance_points db);
          all_dates = sorted_list_of_set (set (map as_of_date all_points));
          labels = map iso all_dates;
          per_account = per_account_of to_float all_points;
          datasets = map (\<lambda>acc. \<lparr>label = name acc,
                                   data = carry_forward (per_account (acc_id acc)) 0 all_dates\<rparr>) accs
      in (labels, datasets))"

subsection \<open>Route handlers of \<^verbatim>\<open>app.py\<close> that write to the store\<close>

text \<open>
  A handler takes the store and the request and returns its response with the store
  after the commit. \<^verbatim>\<open>request.form\<close> is a map from field names to strings;
  \<^verbatim>\<open>get_or_404\<close> answers \<open>Http404\<close>; an exception that leaves the handler, which is
  what \<^verbatim>\<open>db.session.commit()\<close> raises when a column refuses its value, is answered
  with the error page, \<open>Http500\<close>, and the store is the one before the request; every
  other path flashes a message with a category and redirects.
\<close>

datatype response = Http404 | Http500 error | Flash string string





text \<open>
  \<^verbatim>\<open>account_delete\<close>: the relationship \<^verbatim>\<open>balances\<close> is declared with
  \<^verbatim>\<open>cascade="all, delete-orphan"\<close>, so deleting the account deletes the rows that
  reference it.
\<close>

definition account_delete :: "database \<Rightarrow> nat \<Rightarrow> response \<times> database" where
  "account_delete db aid =
     (case find (\<lambda>a. acc_id a = aid) (accounts db) of
        None \<Rightarrow> (Http404, db)
      | Some acc \<Rightarrow>
          (Flash ''Account deleted.'' ''info'',
           db\<lparr>accounts := filter (\<lambda>a. acc_id a \<noteq> acc_id acc) (accounts db),
              balance_points := filter (\<lambda>p. account_id p \<noteq> acc_id acc) (balance_points db)\<rparr>))"

text \<open>
  \<^verbatim>\<open>point.balance = bal\<close> on the row that \<^verbatim>\<open>.first()\<close> returned; the amount given here
  is the one the column holds afterwards.
\<close>

definition set_balance :: "nat \<Rightarrow> decimal \<Rightarrow> balance_point list \<Rightarrow> balance_point list" where
  "set_balance pid bal ps = map (\<lambda>p. if point_id p = pid then p\<lparr>balance := bal\<rparr> else p) ps"



subsection \<open>The CSV import of \<^verbatim>\<open>import.py\<close>\<close>

text \<open>
  The input of the model is what \<^verbatim>\<open>csv.reader\<close> yields for the file: the header row
  \<^verbatim>\<open>reader.fieldnames\<close> and the data rows, each a list of strings. \<^verbatim>\<open>csv.DictReader\<close>
  drops empty rows and turns every other row into a dictionary: fields beyond the
  header are stored as a list under the key \<^verbatim>\<open>None\<close> (\<^verbatim>\<open>restkey\<close>), and header names
  beyond the row get the value \<^verbatim>\<open>None\<close> (\<^verbatim>\<open>restval\<close>). A dictionary is an association list
  in insertion order; \<open>AList.update\<close> is the assignment \<^verbatim>\<open>d[k] = v\<close>.
\<close>

datatype cell = Str string | PyNone | PyList "string list"

definition dict_reader_row :: "string list \<Rightarrow> string list \<Rightarrow> (string option \<times> cell) list" where
  "dict_reader_row fieldnames row =
     (let d = foldl (\<lambda>al (k, v). AList.update (Some k) (Str v) al) [] (zip fieldnames row);
          lf = length fieldnames;
          lr = length row
      in if lf < lr then AList.update None (PyList (drop lf row)) d
         else if lf > lr then foldl (\<lambda>al k. AList.update (Some k) PyNone al) d (drop lr fieldnames)
         else d)"

text \<open>
  \<^verbatim>\<open>norm_row\<close>: the comprehension calls \<^verbatim>\<open>k.strip()\<close> on every key, which raises
  \<^verbatim>\<open>AttributeError\<close> on the key \<^verbatim>\<open>None\<close>.
\<close>

definition norm_row :: "(string option \<times> cell) list \<Rightarrow> error + (string \<times> cell) list" where
  "norm_row raw =
     foldl (\<lambda>acc (k, v).
              case acc of
                Inl e \<Rightarrow> Inl e
              | Inr al \<Rightarrow>
                  (case k of
                     None \<Rightarrow> Inl (AttributeError ''strip'')
                   | Some ks \<Rightarrow>
                       Inr (AList.update (lower (strip ks))
                              (case v of Str x \<Rightarrow> Str (strip x) | PyNone \<Rightarrow> PyNone | PyList l \<Rightarrow> PyList l)
                              al)))
       (Inr []) raw"

text \<open>\<^verbatim>\<open>row[key]\<close>, and a cell passed where the parsers expect a string or \<^verbatim>\<open>None\<close>.\<close>

definition row_get :: "(string \<times> cell) list \<Rightarrow> string \<Rightarrow> error + cell" where
  "row_get row key = (case map_of row key of None \<Rightarrow> Inl (KeyError key) | Some c \<Rightarrow> Inr c)"

definition cell_arg :: "cell \<Rightarrow> error + string option" where
  "cell_arg c =
     (case c of
        Str x \<Rightarrow> Inr (Some x)
      | PyNone \<Rightarrow> Inr None
      | PyList l \<Rightarrow> Inl (AttributeError ''strip''))"

text \<open>
  The body of the \<^verbatim>\<open>try\<close> block of lines 97..100: the date, the account name and the
  amount of a normalised row, or the first exception raised.
\<close>

definition parse_row :: "(string \<times> cell) list \<Rightarrow> error + (date \<times> string \<times> decimal)" where
  "parse_row row =
     (case row_get row ''date'' of
        Inl e \<Rightarrow> Inl e
      | Inr cd \<Rightarrow>
          (case cell_arg cd of
             Inl e \<Rightarrow> Inl e
           | Inr vd \<Rightarrow>
               (case parse_date_ddmmyyyy vd of
                  Inl e \<Rightarrow> Inl e
                | Inr d \<Rightarrow>
                    (case row_get row ''accountname'' of
                       Inl e \<Rightarrow> Inl e
                     | Inr cn \<Rightarrow>
                         (case cn of
                            Str x \<Rightarrow>
                              (case row_get row ''balance'' of
                                 Inl e \<Rightarrow> Inl e
                               | Inr cb \<Rightarrow>
                                   (case cell_arg cb of
                                      Inl e \<Rightarrow> Inl e
                                    | Inr vb \<Rightarrow>
                                        (case import_parse_decimal vb of
                                           Inl e \<Rightarrow> Inl e
                                         | Inr bal \<Rightarrow> Inr (d, strip x, bal))))
                          | PyNone \<Rightarrow> Inl (AttributeError ''strip'')
                          | PyList l \<Rightarrow> Inl (AttributeError ''strip''))))))"

record stats =
  rows_total :: nat
  created_accounts :: nat
  inserted_points :: nat
  updated_points :: nat
  skipped_rows :: nat

text \<open>
  One iteration of the loop of lines 93..128 on a row of the reader. An exception of
  \<^verbatim>\<open>norm_row\<close> is raised outside the \<^verbatim>\<open>try\<close> block and leaves the loop.

  The loop works in one database session, committed after the last row. A row added to
  the session, or changed in it, is sent to the database when the session is flushed:
  before the next query, which is \<^verbatim>\<open>Account.query\<close> of the next row that is not skipped,
  or by the commit. The state of the loop is the store as the session sees it, the
  counters, and a flag saying that the session holds a row whose amount the column
  refuses: the next flush then raises \<^verbatim>\<open>IntegrityError\<close>.
\<close>

type_synonym session = "database \<times> stats \<times> bool"

definition import_row ::
  "(decimal \<Rightarrow> decimal option) \<Rightarrow> nat \<Rightarrow> string list \<Rightarrow> string list \<Rightarrow> session \<Rightarrow>
   error + session" where
  "import_row col now fieldnames raw st =
     (case st of (db, c, refused) \<Rightarrow>
        (let c1 = c\<lparr>rows_total := rows_total c + 1\<rparr> in
         case norm_row (dict_reader_row fieldnames raw) of
           Inl e \<Rightarrow> Inl e
         | Inr row \<Rightarrow>
             (case parse_row row of
                Inl e \<Rightarrow> Inr (db, c1\<lparr>skipped_rows := skipped_rows c1 + 1\<rparr>, refused)
              | Inr (d, nm, bal) \<Rightarrow>
                  if nm = [] then Inr (db, c1\<lparr>skipped_rows := skipped_rows c1 + 1\<rparr>, refused)
                  else if refused then Inl (IntegrityError ''balance_points.balance'')
                  else
                    (let (acc, db1, c2) =
                           (case find (\<lambda>a. name a = nm) (accounts db) of
                              Some a \<Rightarrow> (a, db, c1)
                            | None \<Rightarrow>
                                (let a = \<lparr>acc_id = new_id (map acc_id (accounts db)), name = nm,
                                          account_type = ''other'',
                                          monthly_payment_enabled = False,
                                          monthly_payment_amount = Finite False 0 (-2),
                                          acc_created_at = now\<rparr>
                                 in (a, db\<lparr>accounts := accounts db @ [a]\<rparr>,
                                     c1\<lparr>created_accounts := created_accounts c1 + 1\<rparr>)))
                     in case find (\<lambda>p. account_id p = acc_id acc \<and> as_of_date p = d)
                               (balance_points db1) of
                          Some point \<Rightarrow>
                            (case col bal of
                               None \<Rightarrow> Inr (db1, c2\<lparr>updated_points := updated_points c2 + 1\<rparr>, True)
                             | Some stored \<Rightarrow>
                                 Inr (db1\<lparr>balance_points :=
                                            set_balance (point_id point) stored (balance_points db1)\<rparr>,
                                      c2\<lparr>updated_points := updated_points c2 + 1\<rparr>, False))
                        | None \<Rightarrow>
                            (case col bal of
                               None \<Rightarrow> Inr (db1, c2\<lparr>inserted_points := inserted_points c2 + 1\<rparr>, True)
                             | Some stored \<Rightarrow>
                                 Inr (db1\<lparr>balance_points := balance_points db1 @
                                            [\<lparr>point_id = new_id (map point_id (balance_points db1)),
                                              account_id = acc_id acc, as_of_date = d,
                                              balance = stored, created_at = now\<rparr>]\<rparr>,
                                      c2\<lparr>inserted_points := inserted_points c2 + 1\<rparr>, False))))))"

fun import_rows ::
  "(decimal \<Rightarrow> decimal option) \<Rightarrow> nat \<Rightarrow> string list \<Rightarrow> string list list \<Rightarrow> session \<Rightarrow>
   error + session" where
  "import_rows col now fieldnames [] st = Inr st"
| "import_rows col now fieldnames (raw # rest) st =
     (case import_row col now fieldnames raw st of
        Inl e \<Rightarrow> Inl e
      | Inr st' \<Rightarrow> import_rows col now fieldnames rest st')"

text \<open>
  \<^verbatim>\<open>import_csv\<close> after the file has been read and split into rows. An exception leaves
  the function before \<^verbatim>\<open>db.session.commit()\<close> or is raised by it: the result \<open>Inl\<close>
  carries no store, the database keeps the state it had.
\<close>

definition import_csv ::
  "(decimal \<Rightarrow> decimal option) \<Rightarrow> database \<Rightarrow> nat \<Rightarrow> string list \<Rightarrow> string list list \<Rightarrow>
   error + (database \<times> stats)" where
  "import_csv col db now fieldnames rows =
     (if \<not> {''date'', ''accountname'', ''balance''} \<subseteq> set (map (\<lambda>f. lower (strip f)) fieldnames)
      then Inl (ValueError ''CSV must contain headers: date, accountname, balance.'')
      else (case import_rows col now fieldnames (filter (\<lambda>r. r \<noteq> []) rows)
                   (db, \<lparr>rows_total = 0, created_accounts = 0, inserted_points = 0,
                         updated_points = 0, skipped_rows = 0\<rparr>, False) of
              Inl e \<Rightarrow> Inl e
            | Inr (db', c, refused) \<Rightarrow>
                if refused then Inl (IntegrityError ''balance_points.balance'')
                else Inr (db', c)))"

subsection \<open>Balance writes\<close>











subsection \<open>Example data\<close>

text \<open>
  The example of the specification: account A observed on 2024-01-01 (100) and
  2024-03-01 (300), account B observed on 2024-02-01 (50), and an account C without
  observations. \<open>exact_value\<close> reads a finite decimal as the rational number it denotes;
  it stands for \<^verbatim>\<open>float\<close> in the examples, whose amounts floats represent exactly.
\<close>

definition exact_value :: "decimal \<Rightarrow> rat" where
  "exact_value d =
     (case d of
        Finite neg c e \<Rightarrow>
          (if neg then - 1 else 1) * of_nat c * (if e \<ge> 0 then 10 ^ nat e else 1 / 10 ^ nat (- e))
      | _ \<Rightarrow> 0)"

definition ex_account :: "nat \<Rightarrow> string \<Rightarrow> account" where
  "ex_account i nm =
     \<lparr>acc_id = i, name = nm, account_type = ''bank'', monthly_payment_enabled = False,
      monthly_payment_amount = Finite False 0 (-2), acc_created_at = 0\<rparr>"

definition ex_point :: "nat \<Rightarrow> nat \<Rightarrow> date \<Rightarrow> nat \<Rightarrow> nat \<Rightarrow> balance_point" where
  "ex_point pid aid d cents t =
     \<lparr>point_id = pid, account_id = aid, as_of_date = d, balance = Finite False cents (-2),
      created_at = t\<rparr>"

definition ex_db :: database where
  "ex_db =
     \<lparr>accounts = [ex_account 1 ''A'', ex_account 2 ''B'', ex_account 3 ''C''],
      balance_points =
        [ex_point 1 1 (2024, 3, 1) 30000 10,
         ex_point 2 2 (2024, 2, 1) 5000 11,
         ex_point 3 1 (2024, 1, 1) 10000 12]\<rparr>"

text \<open>A store that breaks the uniqueness constraint: two rows of account A on one date.\<close>

definition ex_db_tie :: database where
  "ex_db_tie =
     \<lparr>accounts = [ex_account 1 ''A''],
      balance_points =
        [ex_point 1 1 (2024, 3, 1) 30000 20,
         ex_point 2 1 (2024, 3, 1) 31000 25,
         ex_point 3 1 (2024, 1, 1) 10000 30]\<rparr>"





section \<open>Properties\<close>

subsection \<open>Evaluation\<close>

text \<open>The equations that evaluate the parsers and the column on concrete inputs.\<close>

lemmas parse_eval =
  parse_decimal_def import_parse_decimal_def normalize_separators_def Decimal_def quantize_def
  rescale_half_even_def parse_finite_def parse_exponent_def parse_nan_def split_sign_def
  strip_def replace_def rfind_def is_space_def is_digit_def digit_val_def nat_of_digits_def
  lower_def lower_char_def ndigits_def ctx_prec_def ctx_Emax_def digits_of.simps
  parse_date_def parse_date_ddmmyyyy_def strptime_Ymd_def strptime_dmY_def strptime_finish_def
  re_Y_def re_m_def re_d_def alt1_def alt2_def alt_space_def lit_def in_range_def
  valid_date_def days_in_month_def is_leap_def Let_def

lemma ilog2_numeral:
  "ilog2 0 = 0" "ilog2 1 = 0" "ilog2 (Suc 0) = 0"
  "ilog2 (numeral (num.Bit0 k)) = Suc (ilog2 (numeral k))"
  "ilog2 (numeral (num.Bit1 k)) = Suc (ilog2 (numeral k))"
proof -
  show "ilog2 0 = 0" "ilog2 1 = 0" "ilog2 (Suc 0) = 0" by (simp_all add: ilog2.simps)
  have "numeral (num.Bit0 k) div 2 = (numeral k :: nat)" by simp
  moreover have "\<not> (numeral (num.Bit0 k) :: nat) < 2" by simp
  ultimately show "ilog2 (numeral (num.Bit0 k)) = Suc (ilog2 (numeral k))"
    by (subst ilog2.simps) (simp only: if_False)
  have "numeral (num.Bit1 k) div 2 = (numeral k :: nat)" by simp
  moreover have "\<not> (numeral (num.Bit1 k) :: nat) < 2" by simp
  ultimately show "ilog2 (numeral (num.Bit1 k)) = Suc (ilog2 (numeral k))"
    by (subst ilog2.simps) (simp only: if_False)
qed

lemmas column_eval =
  sqlite_numeric_def double_of_def floor_log2_def times_pow2_def round_half_even_def
  format_2f_def ilog2_numeral Let_def

subsection \<open>Ordering lemmas\<close>

lemma lex_pair_le:
  fixes a c :: "'a::linorder" and b d :: "'b::linorder"
  shows "(a, b) \<le> (c, d) \<longleftrightarrow> a < c \<or> (a = c \<and> b \<le> d)"
  by (auto simp: less_eq_prod_def)

lemma sort_key_last_max:
  assumes "sort_key k xs = ys @ [p]"
  shows "p \<in> set xs \<and> (\<forall>q \<in> set xs. k q \<le> k p)"
proof -
  have s: "sorted (map k (ys @ [p]))" using assms sorted_sort_key[of k xs] by simp
  have st: "set xs = set (ys @ [p])" using assms set_sort[of k xs] by simp
  from s have "\<forall>q \<in> set ys. k q \<le> k p" by (simp add: sorted_append)
  with st show ?thesis by auto
qed

subsection \<open>Current balance\<close>

text \<open>
  Claim C5. The current balance of an account without observations is 0.00. Otherwise
  it is the amount of one of the account's observations, and every observation of the
  account has an earlier date, or the same date and a creation time that is not later:
  the latest date wins, and among observations of that date the most recently created.
\<close>

theorem current_balance_latest:
  "(filter (\<lambda>p. account_id p = acc_id acc) (balance_points db) = [] \<longrightarrow>
      current_balance db acc = Finite False 0 (-2)) \<and>
   (filter (\<lambda>p. account_id p = acc_id acc) (balance_points db) \<noteq> [] \<longrightarrow>
      (\<exists>p \<in> set (balance_points db).
         account_id p = acc_id acc \<and> current_balance db acc = balance p \<and>
         (\<forall>q \<in> set (balance_points db). account_id q = acc_id acc \<longrightarrow>
            as_of_date q < as_of_date p \<or>
            (as_of_date q = as_of_date p \<and> created_at q \<le> created_at p))))"
proof (intro conjI impI)
  assume "filter (\<lambda>p. account_id p = acc_id acc) (balance_points db) = []"
  then show "current_balance db acc = Finite False 0 (-2)"
    by (simp add: current_balance_def account_balances_def)
next
  let ?xs = "filter (\<lambda>p. account_id p = acc_id acc) (balance_points db)"
  let ?k = "\<lambda>p. (as_of_date p, created_at p)"
  assume ne: "?xs \<noteq> []"
  then have "sort_key ?k ?xs \<noteq> []"
    by (metis length_sort length_0_conv)
  then obtain ys p where yp: "sort_key ?k ?xs = ys @ [p]"
    by (metis rev_exhaust)
  from sort_key_last_max[OF yp] have pin: "p \<in> set ?xs" and mx: "\<forall>q \<in> set ?xs. ?k q \<le> ?k p"
    by blast+
  have cb: "current_balance db acc = balance p"
    using yp by (simp add: current_balance_def account_balances_def)
  have "\<forall>q \<in> set (balance_points db). account_id q = acc_id acc \<longrightarrow>
            as_of_date q < as_of_date p \<or>
            (as_of_date q = as_of_date p \<and> created_at q \<le> created_at p)"
  proof (intro ballI impI)
    fix q assume "q \<in> set (balance_points db)" "account_id q = acc_id acc"
    then have "q \<in> set ?xs" by simp
    with mx have "?k q \<le> ?k p" by blast
    then show "as_of_date q < as_of_date p \<or>
            (as_of_date q = as_of_date p \<and> created_at q \<le> created_at p)"
      by (simp only: lex_pair_le)
  qed
  with pin cb show "\<exists>p \<in> set (balance_points db).
         account_id p = acc_id acc \<and> current_balance db acc = balance p \<and>
         (\<forall>q \<in> set (balance_points db). account_id q = acc_id acc \<longrightarrow>
            as_of_date q < as_of_date p \<or>
            (as_of_date q = as_of_date p \<and> created_at q \<le> created_at p))"
    by auto
qed

text \<open>
  The theorem at the example stores: account C has no observation and balance 0.00;
  in the store with two rows of account A on 2024-03-01 the row created later (310.00)
  is the current balance.
\<close>

theorem current_balance_latest_witness:
  "filter (\<lambda>p. account_id p = acc_id (ex_account 3 ''C'')) (balance_points ex_db) = [] \<and>
   current_balance ex_db (ex_account 3 ''C'') = Finite False 0 (-2) \<and>
   filter (\<lambda>p. account_id p = acc_id (ex_account 1 ''A'')) (balance_points ex_db_tie) \<noteq> [] \<and>
   (\<exists>p \<in> set (balance_points ex_db_tie).
      account_id p = acc_id (ex_account 1 ''A'') \<and>
      current_balance ex_db_tie (ex_account 1 ''A'') = balance p \<and>
      (\<forall>q \<in> set (balance_points ex_db_tie). account_id q = acc_id (ex_account 1 ''A'') \<longrightarrow>
         as_of_date q < as_of_date p \<or>
         (as_of_date q = as_of_date p \<and> created_at q \<le> created_at p))) \<and>
   current_balance ex_db_tie (ex_account 1 ''A'') = Finite False 31000 (-2)"
proof -
  have h1: "filter (\<lambda>p. account_id p = acc_id (ex_account 3 ''C'')) (balance_points ex_db) = []"
    by (simp add: ex_db_def ex_account_def ex_point_def)
  have h2: "filter (\<lambda>p. account_id p = acc_id (ex_account 1 ''A'')) (balance_points ex_db_tie) \<noteq> []"
    by (simp add: ex_db_tie_def ex_account_def ex_point_def)
  have v: "current_balance ex_db_tie (ex_account 1 ''A'') = Finite False 31000 (-2)"
    by (simp add: current_balance_def account_balances_def ex_db_tie_def ex_account_def
        ex_point_def)
  from h1 h2 v current_balance_latest[of "ex_account 3 ''C''" ex_db]
    current_balance_latest[of "ex_account 1 ''A''" ex_db_tie]
  show ?thesis by blast
qed

subsection \<open>Single-account series\<close>

text \<open>
  Claim C6. The single-account series is the projection of the account's stored
  observations, rearranged in ascending date order: labels and values come position
  by position from one list that holds exactly the account's observations, sorted by
  date. Both have as many entries as the account has observations, and the result
  stays the same when the observations of other accounts change.
\<close>

theorem build_account_series_projection:
  "(\<exists>points.
      mset points = mset (filter (\<lambda>p. account_id p = acc_id acc) (balance_points db)) \<and>
      sorted (map as_of_date points) \<and>
      build_account_series to_float db acc =
        (map (\<lambda>p. iso (as_of_date p)) points, map (\<lambda>p. to_float (balance p)) points)) \<and>
   length (fst (build_account_series to_float db acc)) =
     length (filter (\<lambda>p. account_id p = acc_id acc) (balance_points db)) \<and>
   length (snd (build_account_series to_float db acc)) =
     length (filter (\<lambda>p. account_id p = acc_id acc) (balance_points db)) \<and>
   (\<forall>db'. filter (\<lambda>p. account_id p = acc_id acc) (balance_points db') =
           filter (\<lambda>p. account_id p = acc_id acc) (balance_points db) \<longrightarrow>
          build_account_series to_float db' acc = build_account_series to_float db acc)"
proof -
  let ?xs = "filter (\<lambda>p. account_id p = acc_id acc) (balance_points db)"
  let ?pts = "sort_key as_of_date ?xs"
  have "mset ?pts = mset ?xs" by simp
  moreover have "sorted (map as_of_date ?pts)" by (rule sorted_sort_key)
  moreover have "build_account_series to_float db acc =
        (map (\<lambda>p. iso (as_of_date p)) ?pts, map (\<lambda>p. to_float (balance p)) ?pts)"
    by (simp add: build_account_series_def Let_def)
  ultimately have ex: "\<exists>points.
      mset points = mset ?xs \<and> sorted (map as_of_date points) \<and>
      build_account_series to_float db acc =
        (map (\<lambda>p. iso (as_of_date p)) points, map (\<lambda>p. to_float (balance p)) points)"
    by blast
  have l1: "length (fst (build_account_series to_float db acc)) = length ?xs"
    by (simp add: build_account_series_def Let_def)
  have l2: "length (snd (build_account_series to_float db acc)) = length ?xs"
    by (simp add: build_account_series_def Let_def)
  have ind: "\<forall>db'. filter (\<lambda>p. account_id p = acc_id acc) (balance_points db') = ?xs \<longrightarrow>
          build_account_series to_float db' acc = build_account_series to_float db acc"
    by (simp add: build_account_series_def Let_def)
  from ex l1 l2 ind show ?thesis by blast
qed

text \<open>
  The theorem at the example: the store with only the two rows of account A gives the
  series of A in the full example store, two points long.
\<close>

theorem build_account_series_projection_witness:
  "filter (\<lambda>p. account_id p = acc_id (ex_account 1 ''A''))
     (balance_points (ex_db\<lparr>balance_points :=
        [ex_point 1 1 (2024, 3, 1) 30000 10, ex_point 3 1 (2024, 1, 1) 10000 12]\<rparr>)) =
   filter (\<lambda>p. account_id p = acc_id (ex_account 1 ''A'')) (balance_points ex_db) \<and>
   build_account_series exact_value
     (ex_db\<lparr>balance_points :=
        [ex_point 1 1 (2024, 3, 1) 30000 10, ex_point 3 1 (2024, 1, 1) 10000 12]\<rparr>)
     (ex_account 1 ''A'') =
   build_account_series exact_value ex_db (ex_account 1 ''A'') \<and>
   length (fst (build_account_series exact_value ex_db (ex_account 1 ''A''))) = 2"
proof -
  have h: "filter (\<lambda>p. account_id p = acc_id (ex_account 1 ''A''))
     (balance_points (ex_db\<lparr>balance_points :=
        [ex_point 1 1 (2024, 3, 1) 30000 10, ex_point 3 1 (2024, 1, 1) 10000 12]\<rparr>)) =
   filter (\<lambda>p. account_id p = acc_id (ex_account 1 ''A'')) (balance_points ex_db)"
    by (simp add: ex_db_def ex_account_def ex_point_def)
  have l: "length (filter (\<lambda>p. account_id p = acc_id (ex_account 1 ''A''))
             (balance_points ex_db)) = 2"
    by (simp add: ex_db_def ex_account_def ex_point_def)
  from h l build_account_series_projection[of "ex_account 1 ''A''" ex_db exact_value]
  show ?thesis by metis
qed

subsection \<open>Stacked series\<close>

lemma per_account_of_snoc:
  "per_account_of fl (ps @ [x]) =
     (per_account_of fl ps)(account_id x :=
        (per_account_of fl ps (account_id x))(as_of_date x \<mapsto> fl (balance x)))"
  by (simp add: per_account_of_def)

lemma per_account_of_find:
  "per_account_of fl ps aid d =
     map_option (\<lambda>p. fl (balance p))
       (find (\<lambda>p. account_id p = aid \<and> as_of_date p = d) (rev ps))"
proof (induction ps arbitrary: aid d rule: rev_induct)
  case Nil
  show ?case by (simp add: per_account_of_def)
next
  case (snoc x xs)
  then show ?case by (simp add: per_account_of_snoc)
qed

lemma per_account_of_dom:
  "per_account_of fl ps aid d \<noteq> None \<longleftrightarrow>
     (\<exists>p \<in> set ps. account_id p = aid \<and> as_of_date p = d)"
  by (auto simp: per_account_of_find find_None_iff)

lemma find_SomeD: "find P xs = Some x \<Longrightarrow> x \<in> set xs \<and> P x"
  by (induction xs) (simp_all split: if_splits)

lemma per_account_of_uq:
  assumes uq: "inj_on (\<lambda>p. (account_id p, as_of_date p)) (set ps)"
    and r: "r \<in> set ps" "account_id r = aid" "as_of_date r = d"
  shows "per_account_of fl ps aid d = Some (fl (balance r))"
proof -
  let ?P = "\<lambda>p. account_id p = aid \<and> as_of_date p = d"
  from r have "\<exists>p. p \<in> set (rev ps) \<and> ?P p" by auto
  then have "find ?P (rev ps) \<noteq> None" by (simp only: find_None_iff not_not)
  then obtain q where q: "find ?P (rev ps) = Some q" by blast
  from find_SomeD[OF q] have qin: "q \<in> set ps" and qP: "?P q"
    by simp_all
  from qP r have "(account_id q, as_of_date q) = (account_id r, as_of_date r)" by simp
  from uq this qin r(1) have "q = r" by (rule inj_onD)
  with q show ?thesis by (simp add: per_account_of_find)
qed

lemma carry_forward_length: "length (carry_forward m z ds) = length ds"
  by (induction ds arbitrary: z) (simp_all add: Let_def)

lemma carry_forward_nth:
  "i < length ds \<Longrightarrow>
   carry_forward m z ds ! i =
     (case filter (\<lambda>d. m d \<noteq> None) (take (Suc i) ds) of
        [] \<Rightarrow> z
      | x # xs \<Rightarrow> the (m (last (x # xs))))"
proof (induction ds arbitrary: z i)
  case Nil
  then show ?case by simp
next
  case (Cons d ds)
  show ?case
  proof (cases i)
    case 0
    then show ?thesis by (auto simp: Let_def split: option.splits)
  next
    case (Suc j)
    with Cons.prems have j: "j < length ds" by simp
    let ?z' = "case m d of Some v \<Rightarrow> v | None \<Rightarrow> z"
    have "carry_forward m z (d # ds) ! i = carry_forward m ?z' ds ! j"
      using Suc by (simp add: Let_def)
    also have "\<dots> = (case filter (\<lambda>d. m d \<noteq> None) (take (Suc j) ds) of
        [] \<Rightarrow> ?z' | x # xs \<Rightarrow> the (m (last (x # xs))))"
      by (rule Cons.IH[OF j])
    also have "\<dots> = (case filter (\<lambda>d. m d \<noteq> None) (take (Suc i) (d # ds)) of
        [] \<Rightarrow> z | x # xs \<Rightarrow> the (m (last (x # xs))))"
      using Suc by (auto split: list.splits option.splits)
    finally show ?thesis .
  qed
qed

lemma carry_forward_empty: "carry_forward Map.empty z ds = replicate (length ds) z"
  by (induction ds) (simp_all add: Let_def)

lemma sorted_distinct_take_set:
  assumes "sorted xs" "distinct xs" "i < length xs"
  shows "set (take (Suc i) xs) = {x \<in> set xs. x \<le> xs ! i}"
proof (intro set_eqI iffI)
  fix x assume "x \<in> set (take (Suc i) xs)"
  then obtain j where j: "j < Suc i" "j < length xs" "x = xs ! j"
    by (auto simp: in_set_conv_nth)
  with assms have "xs ! j \<le> xs ! i" by (intro sorted_nth_mono) auto
  with j show "x \<in> {x \<in> set xs. x \<le> xs ! i}" by auto
next
  fix x assume "x \<in> {x \<in> set xs. x \<le> xs ! i}"
  then obtain j where j: "j < length xs" "x = xs ! j" and le: "x \<le> xs ! i"
    by (auto simp: in_set_conv_nth)
  have "j \<le> i"
  proof (rule ccontr)
    assume "\<not> j \<le> i"
    then have ij: "i < j" by simp
    with assms j have "xs ! i \<le> xs ! j" by (intro sorted_nth_mono) auto
    with le j have "xs ! i = xs ! j" by simp
    with assms j ij show False by (auto simp: nth_eq_iff_index_eq)
  qed
  with j show "x \<in> set (take (Suc i) xs)"
    by (auto simp: in_set_conv_nth)
qed

lemma sorted_last_upper:
  assumes "sorted xs" "x \<in> set xs" "\<forall>y \<in> set xs. y \<le> x"
  shows "last xs = x"
proof -
  from assms(2) have ne: "xs \<noteq> []" by auto
  then obtain ys l where yl: "xs = ys @ [l]" by (metis rev_exhaust)
  with assms(3) have "l \<le> x" by simp
  moreover from assms(1,2) yl have "x \<le> l" by (auto simp: sorted_append)
  ultimately show ?thesis using yl by simp
qed

lemma stacked_value:
  fixes to_float :: "decimal \<Rightarrow> 'f::zero"
  assumes uq: "uq_account_date ps"
    and ds: "ds = sorted_list_of_set (as_of_date ` set ps)"
    and i: "i < length ds"
  shows "((\<forall>p \<in> set ps. account_id p = aid \<longrightarrow> ds ! i < as_of_date p) \<longrightarrow>
            carry_forward (per_account_of to_float (sort_key as_of_date ps) aid) 0 ds ! i = 0) \<and>
         (\<forall>p \<in> set ps.
            account_id p = aid \<and> as_of_date p \<le> ds ! i \<and>
            (\<forall>q \<in> set ps. account_id q = aid \<and> as_of_date q \<le> ds ! i \<longrightarrow>
                 as_of_date q \<le> as_of_date p) \<longrightarrow>
            carry_forward (per_account_of to_float (sort_key as_of_date ps) aid) 0 ds ! i =
              to_float (balance p))"
proof -
  let ?sps = "sort_key as_of_date ps"
  let ?m = "per_account_of to_float ?sps aid"
  let ?F = "filter (\<lambda>d. ?m d \<noteq> None) (take (Suc i) ds)"
  have sd: "sorted ds" "distinct ds" and setds: "set ds = as_of_date ` set ps"
    using ds by simp_all
  have dom: "\<And>d. ?m d \<noteq> None \<longleftrightarrow> (\<exists>p \<in> set ps. account_id p = aid \<and> as_of_date p = d)"
    by (simp only: per_account_of_dom set_sort)
  have inF: "\<And>d. d \<in> set ?F \<longleftrightarrow> d \<in> set ds \<and> d \<le> ds ! i \<and> ?m d \<noteq> None"
    unfolding set_filter mem_Collect_eq sorted_distinct_take_set[OF sd i] by blast
  have sortedF: "sorted ?F"
    using sd(1) by (simp add: sorted_wrt_take sorted_wrt_filter)
  have val: "carry_forward ?m 0 ds ! i =
      (case ?F of [] \<Rightarrow> 0 | x # xs \<Rightarrow> the (?m (last (x # xs))))"
    by (rule carry_forward_nth[OF i])
  have a: "(\<forall>p \<in> set ps. account_id p = aid \<longrightarrow> ds ! i < as_of_date p) \<longrightarrow>
            carry_forward ?m 0 ds ! i = 0"
  proof
    assume none: "\<forall>p \<in> set ps. account_id p = aid \<longrightarrow> ds ! i < as_of_date p"
    have "?F = []"
    proof (rule ccontr)
      assume "?F \<noteq> []"
      then have "hd ?F \<in> set ?F" by (rule hd_in_set)
      then obtain d where d: "d \<in> set ?F" by blast
      then have dle: "d \<le> ds ! i" and "?m d \<noteq> None" using inF by blast+
      then obtain p where "p \<in> set ps" "account_id p = aid" "as_of_date p = d"
        using dom by blast
      with none have "ds ! i < d" by blast
      with dle show False by simp
    qed
    with val show "carry_forward ?m 0 ds ! i = 0" by simp
  qed
  have b: "\<forall>p \<in> set ps.
            account_id p = aid \<and> as_of_date p \<le> ds ! i \<and>
            (\<forall>q \<in> set ps. account_id q = aid \<and> as_of_date q \<le> ds ! i \<longrightarrow>
                 as_of_date q \<le> as_of_date p) \<longrightarrow>
            carry_forward ?m 0 ds ! i = to_float (balance p)"
  proof (intro ballI impI, elim conjE)
    fix p assume p: "p \<in> set ps" "account_id p = aid" "as_of_date p \<le> ds ! i"
      and mx: "\<forall>q \<in> set ps. account_id q = aid \<and> as_of_date q \<le> ds ! i \<longrightarrow>
                 as_of_date q \<le> as_of_date p"
    have "as_of_date p \<in> set ds" using p(1) setds by blast
    moreover have "?m (as_of_date p) \<noteq> None" using dom p(1,2) by blast
    ultimately have pin: "as_of_date p \<in> set ?F" using p(3) inF by blast
    have ub: "\<forall>y \<in> set ?F. y \<le> as_of_date p"
    proof
      fix y assume "y \<in> set ?F"
      then have yle: "y \<le> ds ! i" and "?m y \<noteq> None" using inF by blast+
      then obtain q where "q \<in> set ps" "account_id q = aid" "as_of_date q = y"
        using dom by blast
      with mx yle show "y \<le> as_of_date p" by blast
    qed
    have lastF: "last ?F = as_of_date p"
      by (rule sorted_last_upper[OF sortedF pin ub])
    from pin have "?F \<noteq> []" by (metis empty_iff empty_set)
    then obtain x xs where F: "?F = x # xs" by (meson neq_Nil_conv)
    have inj: "inj_on (\<lambda>p. (account_id p, as_of_date p)) (set ?sps)"
      using uq unfolding uq_account_date_def by (simp add: distinct_map)
    have "?m (as_of_date p) = Some (to_float (balance p))"
      by (rule per_account_of_uq[OF inj]) (use p in simp_all)
    with val F lastF show "carry_forward ?m 0 ds ! i = to_float (balance p)"
      by simp
  qed
  from a b show ?thesis by blast
qed

lemma digit_char_simps:
  "digit_char 0 = CHR ''0''" "digit_char 1 = CHR ''1''" "digit_char 2 = CHR ''2''"
  "digit_char 3 = CHR ''3''" "digit_char 4 = CHR ''4''" "digit_char 5 = CHR ''5''"
  "digit_char 6 = CHR ''6''" "digit_char 7 = CHR ''7''" "digit_char 8 = CHR ''8''"
  "digit_char 9 = CHR ''9''" "digit_char (Suc 0) = CHR ''1''"
  by (simp_all add: digit_char_def char_of_def bit_iff_odd)

text \<open>
  Claim C1. In a store that satisfies the uniqueness constraint, the labels of the
  stacked series are the ISO renderings of the distinct observation dates of all
  accounts in ascending order. Every account of the list gets one dataset, labelled
  with its name and as long as the labels. Its entry at position \<open>i\<close> is 0 when every
  observation of the account is later than the \<open>i\<close>-th date, and otherwise the amount
  of the account's latest observation on or before that date.
\<close>

theorem build_stacked_series_carry_forward:
  fixes to_float :: "decimal \<Rightarrow> 'f::zero"
  assumes uq: "uq_account_date (balance_points db)"
    and res: "build_stacked_series to_float db accs = (labels, datasets)"
    and dates: "all_dates = sorted_list_of_set (as_of_date ` set (balance_points db))"
  shows "labels = map iso all_dates \<and>
         length datasets = length accs \<and>
         (\<forall>k < length accs.
            label (datasets ! k) = name (accs ! k) \<and>
            length (data (datasets ! k)) = length labels \<and>
            (\<forall>i < length all_dates.
               ((\<forall>p \<in> set (balance_points db).
                    account_id p = acc_id (accs ! k) \<longrightarrow> all_dates ! i < as_of_date p) \<longrightarrow>
                  data (datasets ! k) ! i = 0) \<and>
               (\<forall>p \<in> set (balance_points db).
                  account_id p = acc_id (accs ! k) \<and> as_of_date p \<le> all_dates ! i \<and>
                  (\<forall>q \<in> set (balance_points db).
                     account_id q = acc_id (accs ! k) \<and> as_of_date q \<le> all_dates ! i \<longrightarrow>
                       as_of_date q \<le> as_of_date p) \<longrightarrow>
                  data (datasets ! k) ! i = to_float (balance p))))"
proof -
  let ?ps = "balance_points db"
  let ?sps = "sort_key as_of_date ?ps"
  have ad: "sorted_list_of_set (set (map as_of_date ?sps)) = all_dates"
    using dates by simp
  have labels: "labels = map iso all_dates"
    using res ad by (simp add: build_stacked_series_def Let_def)
  have datasets: "datasets = map (\<lambda>acc. \<lparr>label = name acc,
        data = carry_forward (per_account_of to_float ?sps (acc_id acc)) 0 all_dates\<rparr>) accs"
    using res ad by (simp add: build_stacked_series_def Let_def)
  have len: "length datasets = length accs"
    using datasets by simp
  have each: "\<forall>k < length accs.
            label (datasets ! k) = name (accs ! k) \<and>
            length (data (datasets ! k)) = length labels \<and>
            (\<forall>i < length all_dates.
               ((\<forall>p \<in> set ?ps.
                    account_id p = acc_id (accs ! k) \<longrightarrow> all_dates ! i < as_of_date p) \<longrightarrow>
                  data (datasets ! k) ! i = 0) \<and>
               (\<forall>p \<in> set ?ps.
                  account_id p = acc_id (accs ! k) \<and> as_of_date p \<le> all_dates ! i \<and>
                  (\<forall>q \<in> set ?ps.
                     account_id q = acc_id (accs ! k) \<and> as_of_date q \<le> all_dates ! i \<longrightarrow>
                       as_of_date q \<le> as_of_date p) \<longrightarrow>
                  data (datasets ! k) ! i = to_float (balance p)))"
  proof (intro allI impI)
    fix k assume k: "k < length accs"
    have dk: "datasets ! k = \<lparr>label = name (accs ! k),
        data = carry_forward (per_account_of to_float ?sps (acc_id (accs ! k))) 0 all_dates\<rparr>"
      using datasets k by simp
    have l: "label (datasets ! k) = name (accs ! k)" using dk by simp
    have n: "length (data (datasets ! k)) = length labels"
      using dk labels by (simp add: carry_forward_length)
    have v: "\<forall>i < length all_dates.
               ((\<forall>p \<in> set ?ps.
                    account_id p = acc_id (accs ! k) \<longrightarrow> all_dates ! i < as_of_date p) \<longrightarrow>
                  data (datasets ! k) ! i = 0) \<and>
               (\<forall>p \<in> set ?ps.
                  account_id p = acc_id (accs ! k) \<and> as_of_date p \<le> all_dates ! i \<and>
                  (\<forall>q \<in> set ?ps.
                     account_id q = acc_id (accs ! k) \<and> as_of_date q \<le> all_dates ! i \<longrightarrow>
                       as_of_date q \<le> as_of_date p) \<longrightarrow>
                  data (datasets ! k) ! i = to_float (balance p))"
    proof (intro allI impI)
      fix i assume i: "i < length all_dates"
      have d: "data (datasets ! k) =
          carry_forward (per_account_of to_float ?sps (acc_id (accs ! k))) 0 all_dates"
        using dk by simp
      show "((\<forall>p \<in> set ?ps.
                    account_id p = acc_id (accs ! k) \<longrightarrow> all_dates ! i < as_of_date p) \<longrightarrow>
                  data (datasets ! k) ! i = 0) \<and>
               (\<forall>p \<in> set ?ps.
                  account_id p = acc_id (accs ! k) \<and> as_of_date p \<le> all_dates ! i \<and>
                  (\<forall>q \<in> set ?ps.
                     account_id q = acc_id (accs ! k) \<and> as_of_date q \<le> all_dates ! i \<longrightarrow>
                       as_of_date q \<le> as_of_date p) \<longrightarrow>
                  data (datasets ! k) ! i = to_float (balance p))"
        unfolding d by (rule stacked_value[OF uq dates i])
    qed
    from l n v show "label (datasets ! k) = name (accs ! k) \<and>
            length (data (datasets ! k)) = length labels \<and>
            (\<forall>i < length all_dates.
               ((\<forall>p \<in> set ?ps.
                    account_id p = acc_id (accs ! k) \<longrightarrow> all_dates ! i < as_of_date p) \<longrightarrow>
                  data (datasets ! k) ! i = 0) \<and>
               (\<forall>p \<in> set ?ps.
                  account_id p = acc_id (accs ! k) \<and> as_of_date p \<le> all_dates ! i \<and>
                  (\<forall>q \<in> set ?ps.
                     account_id q = acc_id (accs ! k) \<and> as_of_date q \<le> all_dates ! i \<longrightarrow>
                       as_of_date q \<le> as_of_date p) \<longrightarrow>
                  data (datasets ! k) ! i = to_float (balance p)))"
      by (intro conjI)
  qed
  from labels len each show ?thesis by (intro conjI)
qed

text \<open>
  The theorem at the example of the specification: the labels are the three dates,
  the series of A is 100, 100, 300, that of B is 0, 50, 50 and that of C, which has no
  observation, is 0, 0, 0. B has no observation on or before 2024-01-01, and its first
  entry is 0.
\<close>

theorem build_stacked_series_carry_forward_witness:
  "uq_account_date (balance_points ex_db) \<and>
   build_stacked_series exact_value ex_db
     [ex_account 1 ''A'', ex_account 2 ''B'', ex_account 3 ''C''] =
     ([''2024-01-01'', ''2024-02-01'', ''2024-03-01''],
      [\<lparr>label = ''A'', data = [100, 100, 300]\<rparr>,
       \<lparr>label = ''B'', data = [0, 50, 50]\<rparr>,
       \<lparr>label = ''C'', data = [0, 0, 0]\<rparr>]) \<and>
   [(2024, 1, 1), (2024, 2, 1), (2024, 3, 1)] =
     sorted_list_of_set (as_of_date ` set (balance_points ex_db)) \<and>
   [''2024-01-01'', ''2024-02-01'', ''2024-03-01''] =
     map iso [(2024, 1, 1), (2024, 2, 1), (2024, 3, 1)] \<and>
   filter (\<lambda>p. account_id p = 2 \<and> as_of_date p \<le> (2024, 1, 1)) (balance_points ex_db) = [] \<and>
   data ([\<lparr>label = ''A'', data = [100, 100, 300]\<rparr>,
          \<lparr>label = ''B'', data = [0, 50, 50]\<rparr>,
          \<lparr>label = ''C'', data = [0, 0, 0 :: rat]\<rparr>] ! 1) ! 0 = 0"
proof -
  have h1: "uq_account_date (balance_points ex_db)"
    by (simp add: uq_account_date_def ex_db_def ex_point_def)
  have h3: "[(2024, 1, 1), (2024, 2, 1), (2024, 3, 1)] =
     sorted_list_of_set (as_of_date ` set (balance_points ex_db))"
    by (simp add: ex_db_def ex_point_def sorted_list_of_set_sort_remdups)
  have h2: "build_stacked_series exact_value ex_db
     [ex_account 1 ''A'', ex_account 2 ''B'', ex_account 3 ''C''] =
     ([''2024-01-01'', ''2024-02-01'', ''2024-03-01''],
      [\<lparr>label = ''A'', data = [100, 100, 300]\<rparr>,
       \<lparr>label = ''B'', data = [0, 50, 50]\<rparr>,
       \<lparr>label = ''C'', data = [0, 0, 0]\<rparr>])"
    by (simp add: build_stacked_series_def Let_def ex_db_def ex_point_def ex_account_def
        sorted_list_of_set_sort_remdups per_account_of_def exact_value_def
        iso_def zfill_def digits_of.simps digit_char_simps)
  have h5: "filter (\<lambda>p. account_id p = 2 \<and> as_of_date p \<le> (2024, 1, 1)) (balance_points ex_db) = []"
    by (simp add: ex_db_def ex_point_def)
  have h4: "\<forall>p \<in> set (balance_points ex_db).
      account_id p = acc_id ([ex_account 1 ''A'', ex_account 2 ''B'', ex_account 3 ''C''] ! 1) \<longrightarrow>
      [(2024, 1, 1), (2024, 2, 1), (2024, 3, 1)] ! 0 < as_of_date p"
    by (simp add: ex_db_def ex_point_def ex_account_def)
  note t = build_stacked_series_carry_forward[OF h1 h2 h3]
  from t have l: "[''2024-01-01'', ''2024-02-01'', ''2024-03-01''] =
     map iso [(2024, 1, 1), (2024, 2, 1), (2024, 3, 1)]"
    by (rule conjunct1)
  from t h4 have v: "data ([\<lparr>label = ''A'', data = [100, 100, 300]\<rparr>,
          \<lparr>label = ''B'', data = [0, 50, 50]\<rparr>,
          \<lparr>label = ''C'', data = [0, 0, 0 :: rat]\<rparr>] ! 1) ! 0 = 0"
    by simp
  from h1 h2 h3 h5 l v show ?thesis by (intro conjI)
qed

subsection \<open>Deleting an account\<close>

lemma per_account_of_none:
  assumes "\<forall>p \<in> set ps. account_id p \<noteq> aid"
  shows "per_account_of fl ps aid = Map.empty"
proof
  fix d
  from assms have "\<not> (\<exists>p \<in> set ps. account_id p = aid \<and> as_of_date p = d)" by blast
  then show "per_account_of fl ps aid d = None"
    using per_account_of_dom[of fl ps aid d] by blast
qed

text \<open>
  Claim C9. Deleting an existing account removes exactly the account and the
  observations that reference it: the remaining accounts and observations are the
  former ones, unchanged and in their order. A stacked series built afterwards has as
  labels the dates of the other accounts' observations only, and the dataset of any
  account carrying the deleted identifier is zero throughout.
\<close>

theorem account_delete_cascade:
  fixes to_float :: "decimal \<Rightarrow> 'f::zero"
  assumes ex: "\<exists>a \<in> set (accounts db). acc_id a = aid"
    and del: "account_delete db aid = (resp, db')"
  shows "accounts db' = filter (\<lambda>a. acc_id a \<noteq> aid) (accounts db) \<and>
         balance_points db' = filter (\<lambda>p. account_id p \<noteq> aid) (balance_points db) \<and>
         (\<forall>p \<in> set (balance_points db'). account_id p \<noteq> aid) \<and>
         fst (build_stacked_series to_float db' accs) =
           map iso (sorted_list_of_set
             (as_of_date ` {p \<in> set (balance_points db). account_id p \<noteq> aid})) \<and>
         (\<forall>k < length accs. acc_id (accs ! k) = aid \<longrightarrow>
            data (snd (build_stacked_series to_float db' accs) ! k) =
              replicate (length (fst (build_stacked_series to_float db' accs))) 0)"
proof -
  from ex have "find (\<lambda>a. acc_id a = aid) (accounts db) \<noteq> None"
    by (simp only: find_None_iff not_not) blast
  then obtain acc where f: "find (\<lambda>a. acc_id a = aid) (accounts db) = Some acc" by blast
  from find_SomeD[OF f] have id: "acc_id acc = aid" by simp
  from del f id have db': "db' = db\<lparr>accounts := filter (\<lambda>a. acc_id a \<noteq> aid) (accounts db),
              balance_points := filter (\<lambda>p. account_id p \<noteq> aid) (balance_points db)\<rparr>"
    by (simp add: account_delete_def)
  have a: "accounts db' = filter (\<lambda>a. acc_id a \<noteq> aid) (accounts db)"
    and b: "balance_points db' = filter (\<lambda>p. account_id p \<noteq> aid) (balance_points db)"
    using db' by simp_all
  have c: "\<forall>p \<in> set (balance_points db'). account_id p \<noteq> aid"
    using b by simp
  have setb: "set (balance_points db') = {p \<in> set (balance_points db). account_id p \<noteq> aid}"
    using b by simp
  have d: "fst (build_stacked_series to_float db' accs) =
           map iso (sorted_list_of_set
             (as_of_date ` {p \<in> set (balance_points db). account_id p \<noteq> aid}))"
    by (simp add: build_stacked_series_def Let_def setb)
  have e: "\<forall>k < length accs. acc_id (accs ! k) = aid \<longrightarrow>
            data (snd (build_stacked_series to_float db' accs) ! k) =
              replicate (length (fst (build_stacked_series to_float db' accs))) 0"
  proof (intro allI impI)
    fix k assume k: "k < length accs" and ka: "acc_id (accs ! k) = aid"
    have "\<forall>p \<in> set (sort_key as_of_date (balance_points db')). account_id p \<noteq> aid"
      using c by simp
    then have "per_account_of to_float (sort_key as_of_date (balance_points db')) aid = Map.empty"
      by (rule per_account_of_none)
    with k ka show "data (snd (build_stacked_series to_float db' accs) ! k) =
              replicate (length (fst (build_stacked_series to_float db' accs))) 0"
      by (simp add: build_stacked_series_def Let_def carry_forward_empty)
  qed
  from a b c d e show ?thesis by (intro conjI)
qed

text \<open>
  The theorem at the example store: after deleting account A only the observation of B
  is left, the axis is the single date 2024-02-01, and a dataset requested for A is 0.
\<close>

theorem account_delete_cascade_witness:
  "(\<exists>a \<in> set (accounts ex_db). acc_id a = 1) \<and>
   account_delete ex_db 1 =
     (Flash ''Account deleted.'' ''info'',
      \<lparr>accounts = [ex_account 2 ''B'', ex_account 3 ''C''],
       balance_points = [ex_point 2 2 (2024, 2, 1) 5000 11]\<rparr>) \<and>
   fst (build_stacked_series exact_value
          \<lparr>accounts = [ex_account 2 ''B'', ex_account 3 ''C''],
           balance_points = [ex_point 2 2 (2024, 2, 1) 5000 11]\<rparr>
          [ex_account 1 ''A'', ex_account 2 ''B'']) =
     map iso (sorted_list_of_set
       (as_of_date ` {p \<in> set (balance_points ex_db). account_id p \<noteq> 1})) \<and>
   build_stacked_series exact_value
          \<lparr>accounts = [ex_account 2 ''B'', ex_account 3 ''C''],
           balance_points = [ex_point 2 2 (2024, 2, 1) 5000 11]\<rparr>
          [ex_account 1 ''A'', ex_account 2 ''B''] =
     ([''2024-02-01''], [\<lparr>label = ''A'', data = [0]\<rparr>, \<lparr>label = ''B'', data = [50]\<rparr>])"
proof -
  have h1: "\<exists>a \<in> set (accounts ex_db). acc_id a = 1"
    by (simp add: ex_db_def ex_account_def)
  have h2: "account_delete ex_db 1 =
     (Flash ''Account deleted.'' ''info'',
      \<lparr>accounts = [ex_account 2 ''B'', ex_account 3 ''C''],
       balance_points = [ex_point 2 2 (2024, 2, 1) 5000 11]\<rparr>)"
    by (simp add: account_delete_def ex_db_def ex_account_def ex_point_def)
  have h3: "build_stacked_series exact_value
          \<lparr>accounts = [ex_account 2 ''B'', ex_account 3 ''C''],
           balance_points = [ex_point 2 2 (2024, 2, 1) 5000 11]\<rparr>
          [ex_account 1 ''A'', ex_account 2 ''B''] =
     ([''2024-02-01''], [\<lparr>label = ''A'', data = [0]\<rparr>, \<lparr>label = ''B'', data = [50]\<rparr>])"
    by (simp add: build_stacked_series_def Let_def ex_point_def ex_account_def
        per_account_of_def exact_value_def
        iso_def zfill_def digits_of.simps digit_char_simps)
  note t = account_delete_cascade[OF h1 h2, of exact_value "[ex_account 1 ''A'', ex_account 2 ''B'']"]
  from t have l: "fst (build_stacked_series exact_value
          \<lparr>accounts = [ex_account 2 ''B'', ex_account 3 ''C''],
           balance_points = [ex_point 2 2 (2024, 2, 1) 5000 11]\<rparr>
          [ex_account 1 ''A'', ex_account 2 ''B'']) =
     map iso (sorted_list_of_set
       (as_of_date ` {p \<in> set (balance_points ex_db). account_id p \<noteq> 1}))"
    by blast
  from h1 h2 h3 l show ?thesis by (intro conjI)
qed

subsection \<open>The column of the configured database\<close>






subsection \<open>Rows of the CSV reader\<close>

lemma norm_row_step_Inl:
  "foldl (\<lambda>acc (k, v).
              case acc of
                Inl e \<Rightarrow> Inl e
              | Inr al \<Rightarrow>
                  (case k of
                     None \<Rightarrow> Inl (AttributeError ''strip'')
                   | Some ks \<Rightarrow>
                       Inr (AList.update (lower (strip ks))
                              (case v of Str x \<Rightarrow> Str (strip x) | PyNone \<Rightarrow> PyNone | PyList l \<Rightarrow> PyList l)
                              al)))
       (Inl e) raw = Inl e"
  by (induction raw) (simp_all split: prod.splits)

lemma norm_row_fold_None_key:
  "None \<in> fst ` set raw \<Longrightarrow>
   foldl (\<lambda>acc (k, v).
              case acc of
                Inl e \<Rightarrow> Inl e
              | Inr al \<Rightarrow>
                  (case k of
                     None \<Rightarrow> Inl (AttributeError ''strip'')
                   | Some ks \<Rightarrow>
                       Inr (AList.update (lower (strip ks))
                              (case v of Str x \<Rightarrow> Str (strip x) | PyNone \<Rightarrow> PyNone | PyList l \<Rightarrow> PyList l)
                              al)))
       (Inr al0) raw = Inl (AttributeError ''strip'')"
proof (induction raw arbitrary: al0)
  case Nil
  then show ?case by simp
next
  case (Cons kv raw)
  obtain k v where kv: "kv = (k, v)" by (cases kv)
  show ?case
  proof (cases k)
    case None
    with kv show ?thesis by (simp add: norm_row_step_Inl)
  next
    case (Some ks)
    with Cons.prems kv have "None \<in> fst ` set raw" by auto
    from Cons.IH[OF this] kv Some show ?thesis by simp
  qed
qed

lemma norm_row_None_key:
  "None \<in> fst ` set raw \<Longrightarrow> norm_row raw = Inl (AttributeError ''strip'')"
  unfolding norm_row_def by (rule norm_row_fold_None_key)







subsection \<open>The uniqueness invariant and the upsert\<close>























lemma import_rows_Cons_Inr:
  assumes "import_rows col now fieldnames (raw # rest) (db, c, r) = Inr (db', c', r')"
  obtains db1 c1 r1 where
    "import_row col now fieldnames raw (db, c, r) = Inr (db1, c1, r1)"
    "import_rows col now fieldnames rest (db1, c1, r1) = Inr (db', c', r')"
proof (cases "import_row col now fieldnames raw (db, c, r)")
  case (Inl e)
  with assms show ?thesis by simp
next
  case (Inr st)
  obtain db1 c1 r1 where st: "st = (db1, c1, r1)" by (cases st) auto
  from assms Inr st have "import_rows col now fieldnames rest (db1, c1, r1) = Inr (db', c', r')"
    by simp
  with Inr st that show ?thesis by blast
qed






















text \<open>The example writes, evaluated with the column of the configured database.\<close>

lemma ex_col:
  "sqlite_numeric (Finite False 31000 (-2)) = Some (Finite False 31000 (-2))"
  "sqlite_numeric (Finite False 31500 (-2)) = Some (Finite False 31500 (-2))"
  "sqlite_numeric (Finite False 5500 (-2)) = Some (Finite False 5500 (-2))"
  "sqlite_numeric (Finite False 32050 (-2)) = Some (Finite False 32050 (-2))"
  "sqlite_numeric (Finite False 9007199254740993 (-2)) = Some (Finite False 9007199254740994 (-2))"
  "sqlite_numeric (NaN False False 0) = None"
  by (simp_all add: column_eval)











subsection \<open>CSV import: rows, counters, and the row that ends the batch\<close>

text \<open>
  A data row with more fields than the header makes \<^verbatim>\<open>csv.DictReader\<close> store the
  surplus under the key \<^verbatim>\<open>None\<close>; \<^verbatim>\<open>norm_row\<close> then raises, and it is called before the
  \<^verbatim>\<open>try\<close> block. When the loop does come to its end, every row it read is counted once
  in \<open>rows_total\<close> and once in exactly one of the three outcome counters.
\<close>

lemma import_row_extra_fields:
  assumes "length fieldnames < length raw"
  shows "import_row col now fieldnames raw st = Inl (AttributeError ''strip'')"
proof -
  obtain db c r where st: "st = (db, c, r)" by (cases st) auto
  from assms have "None \<in> fst ` set (dict_reader_row fieldnames raw)"
    by (simp add: dict_reader_row_def Let_def dom_update)
  from norm_row_None_key[OF this] show ?thesis
    by (simp add: st import_row_def Let_def)
qed

lemma import_row_counts:
  assumes "import_row col now fieldnames raw (db, st, r) = Inr (db', st', r')"
  shows "rows_total st' = rows_total st + 1 \<and>
         inserted_points st' + updated_points st' + skipped_rows st' =
           inserted_points st + updated_points st + skipped_rows st + 1"
  using assms
  by (auto simp: import_row_def Let_def split: sum.splits option.splits if_splits prod.splits)

lemma import_rows_counts:
  "import_rows col now fieldnames rows (db, st, r) = Inr (db', st', r') \<Longrightarrow>
   rows_total st' = rows_total st + length rows \<and>
   inserted_points st' + updated_points st' + skipped_rows st' =
     inserted_points st + updated_points st + skipped_rows st + length rows"
proof (induction rows arbitrary: db st r)
  case Nil
  then show ?case by simp
next
  case (Cons raw rest)
  from Cons.prems obtain db1 st1 r1 where
    step: "import_row col now fieldnames raw (db, st, r) = Inr (db1, st1, r1)"
    and rest: "import_rows col now fieldnames rest (db1, st1, r1) = Inr (db', st', r')"
    by (rule import_rows_Cons_Inr)
  from import_row_counts[OF step] Cons.IH[OF rest] show ?case by simp
qed

text \<open>
  A row whose amount is \<^verbatim>\<open>nan\<close> is parsed and counted as inserted; the column of the
  configured database refuses it when the session is flushed for the next row, and the
  import ends with the exception.
\<close>

lemma import_csv_nan_aborts:
  "import_csv sqlite_numeric ex_db 60 [''date'', ''accountname'', ''balance'']
     [[''01.02.2024'', ''A'', ''nan''],
      [''03.02.2024'', ''A'', ''5'']] = Inl (IntegrityError ''balance_points.balance'')"
  by (simp add: import_csv_def import_row_def norm_row_def dict_reader_row_def
      parse_row_def row_get_def cell_arg_def ex_db_def ex_account_def ex_point_def
      parse_eval ex_col)

text \<open>
  Claim C8 (the code departs from it). The header has the three required names, the
  first and third row are well-formed, and the second has four fields, the amount
  being split in two by a delimiter. The second row is not skipped and counted: the
  import ends with the exception, whatever the column does with the amounts; no
  counters are returned and nothing is committed, the first row included.
\<close>

theorem import_csv_extra_field_aborts:
  "import_csv col ex_db 60 [''date'', ''accountname'', ''balance'']
     [[''01.02.2024'', ''A'', ''100.00''],
      [''02.02.2024'', ''A'', ''1'', ''234.56''],
      [''03.02.2024'', ''A'', ''5'']] = Inl (AttributeError ''strip'')"
proof -
  let ?fn = "[''date'', ''accountname'', ''balance'']"
  let ?z = "\<lparr>rows_total = 0, created_accounts = 0, inserted_points = 0,
             updated_points = 0, skipped_rows = 0\<rparr>"
  have "\<exists>st. import_row col 60 ?fn [''01.02.2024'', ''A'', ''100.00''] (ex_db, ?z, False) = Inr st"
    by (auto simp: import_row_def norm_row_def dict_reader_row_def
        parse_row_def row_get_def cell_arg_def ex_db_def ex_account_def ex_point_def
        parse_eval split: option.splits)
  then obtain st where
    1: "import_row col 60 ?fn [''01.02.2024'', ''A'', ''100.00''] (ex_db, ?z, False) = Inr st"
    by blast
  have 2: "import_row col 60 ?fn [''02.02.2024'', ''A'', ''1'', ''234.56''] st =
             Inl (AttributeError ''strip'')"
    by (rule import_row_extra_fields) simp
  have h: "{''date'', ''accountname'', ''balance''} \<subseteq> set (map (\<lambda>f. lower (strip f)) ?fn)"
    by (simp add: parse_eval)
  from h 1 2 show ?thesis by (simp add: import_csv_def)
qed

subsection \<open>Rounding of amounts\<close>

lemma ndigits_step: "ndigits n = (if n < 10 then 1 else ndigits (n div 10) + 1)"
  by (subst ndigits_def, subst digits_of.simps) (simp add: ndigits_def)

lemma ndigits_le: "0 < k \<Longrightarrow> n < 10 ^ k \<Longrightarrow> ndigits n \<le> k"
proof (induction k arbitrary: n)
  case 0
  then show ?case by simp
next
  case (Suc k)
  show ?case
  proof (cases "n < 10")
    case True
    then show ?thesis by (subst ndigits_step) simp
  next
    case False
    with Suc.prems have k: "0 < k" by (cases k) auto
    from Suc.prems have "n div 10 < 10 ^ k"
      by (simp add: less_mult_imp_div_less mult.commute)
    from Suc.IH[OF k this] False show ?thesis by (subst ndigits_step) simp
  qed
qed

lemma import_parse_decimal_Inr:
  "(import_parse_decimal v = Inr d) = (parse_decimal v = Inr d)"
  by (simp add: import_parse_decimal_def parse_decimal_def Let_def split: option.splits)

lemma quantize_tie:
  assumes e: "e < -2"
    and tie: "c mod 10 ^ nat (-2 - e) = 5 * 10 ^ (nat (-2 - e) - 1)"
    and fits: "c div 10 ^ nat (-2 - e) + 1 < 10 ^ 28"
  shows "quantize (-2) (Finite neg c e) =
           Some (Finite neg (if even (c div 10 ^ nat (-2 - e)) then c div 10 ^ nat (-2 - e)
                             else c div 10 ^ nat (-2 - e) + 1) (-2))"
proof -
  define k where "k = nat (-2 - e)"
  define q where "q = c div 10 ^ k"
  have k: "0 < k" and ek: "e = - 2 - int k" using e by (simp_all add: k_def)
  have tie': "c mod 10 ^ k = 5 * 10 ^ (k - 1)" using tie by (simp add: k_def)
  have fits': "q + 1 < 10 ^ 28" using fits by (simp add: k_def q_def)
  have c0: "c \<noteq> 0"
  proof
    assume "c = 0"
    with tie' show False by simp
  qed
  have "c < (q + 1) * 10 ^ k"
    unfolding q_def using dividend_less_div_times[of "10 ^ k" c] by (simp add: algebra_simps)
  also have "\<dots> \<le> 10 ^ 28 * 10 ^ k" using fits' by (intro mult_right_mono) simp_all
  finally have cb: "c < 10 ^ (28 + k)" by (simp add: power_add)
  from ndigits_le[OF _ cb] have nd: "ndigits c \<le> 28 + k" by simp
  have resc: "rescale_half_even c e (-2) = (if even q then q else q + 1)"
    using e tie' by (simp add: rescale_half_even_def Let_def k_def[symmetric] q_def[symmetric])
  have "(if even q then q else q + 1) < 10 ^ 28" using fits' by simp
  from ndigits_le[OF _ this] have ndr: "ndigits (if even q then q else q + 1) \<le> 28" by simp
  from c0 nd ndr resc ek show ?thesis
    by (simp add: quantize_def Let_def ctx_prec_def ctx_Emax_def k_def[symmetric] q_def[symmetric])
qed

text \<open>
  Claim C10. When the normalised input denotes a finite decimal with more than two
  fractional digits whose dropped part is exactly one half of the last kept place
  (a third fractional digit 5 and only zeros after it), and the result fits the
  precision of 28 digits, the parsers return the neighbouring hundredth with an even
  last digit: rounding is half-to-even. Both copies of \<^verbatim>\<open>parse_decimal\<close> agree.
\<close>

theorem parse_decimal_half_even:
  assumes ne: "strip raw \<noteq> []"
    and dec: "Decimal (normalize_separators (strip raw)) = Some (Finite neg c e)"
    and e: "e < -2"
    and tie: "c mod 10 ^ nat (-2 - e) = 5 * 10 ^ (nat (-2 - e) - 1)"
    and fits: "c div 10 ^ nat (-2 - e) + 1 < 10 ^ 28"
  shows "parse_decimal (Some raw) =
           Inr (Finite neg (if even (c div 10 ^ nat (-2 - e)) then c div 10 ^ nat (-2 - e)
                            else c div 10 ^ nat (-2 - e) + 1) (-2)) \<and>
         import_parse_decimal (Some raw) = parse_decimal (Some raw)"
proof -
  from quantize_tie[OF e tie fits, of neg] ne dec
  have p: "parse_decimal (Some raw) =
           Inr (Finite neg (if even (c div 10 ^ nat (-2 - e)) then c div 10 ^ nat (-2 - e)
                            else c div 10 ^ nat (-2 - e) + 1) (-2))"
    by (simp add: parse_decimal_def Let_def)
  with import_parse_decimal_Inr[of "Some raw"] show ?thesis by simp
qed

text \<open>
  The theorem at 0.125 (kept digits 12, even: 0.12), at 0.135 (kept digits 13, odd:
  0.14) and at -2,50500 (kept digits 250, even: -2.50).
\<close>

theorem parse_decimal_half_even_witness:
  "strip ''0.125'' \<noteq> [] \<and>
   Decimal (normalize_separators (strip ''0.125'')) = Some (Finite False 125 (-3)) \<and>
   parse_decimal (Some ''0.125'') = Inr (Finite False 12 (-2)) \<and>
   strip ''0.135'' \<noteq> [] \<and>
   Decimal (normalize_separators (strip ''0.135'')) = Some (Finite False 135 (-3)) \<and>
   parse_decimal (Some ''0.135'') = Inr (Finite False 14 (-2)) \<and>
   Decimal (normalize_separators (strip ''-2,50500'')) = Some (Finite True 250500 (-5)) \<and>
   parse_decimal (Some ''-2,50500'') = Inr (Finite True 250 (-2))"
proof -
  have a1: "strip ''0.125'' \<noteq> []" by (simp add: parse_eval)
  have a2: "Decimal (normalize_separators (strip ''0.125'')) = Some (Finite False 125 (-3))"
    by (simp add: parse_eval)
  have b1: "strip ''0.135'' \<noteq> []" by (simp add: parse_eval)
  have b2: "Decimal (normalize_separators (strip ''0.135'')) = Some (Finite False 135 (-3))"
    by (simp add: parse_eval)
  have c1: "strip ''-2,50500'' \<noteq> []" by (simp add: parse_eval)
  have c2: "Decimal (normalize_separators (strip ''-2,50500'')) = Some (Finite True 250500 (-5))"
    by (simp add: parse_eval)
  have a3: "parse_decimal (Some ''0.125'') = Inr (Finite False 12 (-2))"
    using parse_decimal_half_even[OF a1 a2] by simp
  have b3: "parse_decimal (Some ''0.135'') = Inr (Finite False 14 (-2))"
    using parse_decimal_half_even[OF b1 b2] by simp
  have c3: "parse_decimal (Some ''-2,50500'') = Inr (Finite True 250 (-2))"
    using parse_decimal_half_even[OF c1 c2] by simp
  from a1 a2 a3 b1 b2 b3 c2 c3 show ?thesis by (intro conjI)
qed

subsection \<open>Mixed separators\<close>

lemma replace_delete: "replace a [] s = filter (\<lambda>c. c \<noteq> a) s"
  by (induction s) (simp_all add: replace_def)

lemma replace_single: "replace a [b] s = map (\<lambda>c. if c = a then b else c) s"
  by (induction s) (simp_all add: replace_def)

lemma rfind_from_snoc:
  "rfind_from a (s @ [c]) i f = (if c = a then i + int (length s) else rfind_from a s i f)"
  by (induction s arbitrary: i f) (simp_all add: algebra_simps)

lemma rfind_snoc: "rfind a (s @ [c]) = (if c = a then int (length s) else rfind a s)"
  by (simp add: rfind_def rfind_from_snoc)

lemma rfind_less: "rfind a s < int (length s)"
proof (induction s rule: rev_induct)
  case Nil
  show ?case by (simp add: rfind_def)
next
  case (snoc c s)
  then show ?case by (simp add: rfind_snoc)
qed

lemma rfind_rightmost:
  assumes "a \<noteq> b"
  shows "a \<in> set s \<or> b \<in> set s \<Longrightarrow>
         (rfind a s > rfind b s \<longleftrightarrow> last (filter (\<lambda>c. c = a \<or> c = b) s) = a)"
proof (induction s rule: rev_induct)
  case Nil
  then show ?case by simp
next
  case (snoc c s)
  show ?case
  proof (cases "c = a \<or> c = b")
    case True
    with assms rfind_less[of a s] rfind_less[of b s] show ?thesis
      by (auto simp: rfind_snoc)
  next
    case False
    with snoc.prems have "a \<in> set s \<or> b \<in> set s" by auto
    from snoc.IH[OF this] False show ?thesis by (simp add: rfind_snoc)
  qed
qed

lemma normalize_separators_both:
  assumes "CHR '','' \<in> set s" "CHR ''.'' \<in> set s"
  shows "normalize_separators s = read_rightmost_as_decimal s"
proof -
  let ?F = "filter (\<lambda>c. c = CHR '','' \<or> c = CHR ''.'') s"
  have r: "rfind CHR '','' s > rfind CHR ''.'' s \<longleftrightarrow> last ?F = CHR '',''"
    using rfind_rightmost[of "CHR '',''" "CHR ''.''" s] assms by simp
  from assms have "?F \<noteq> []" by (auto simp: filter_empty_conv)
  then have "last ?F \<in> set ?F" by (rule last_in_set)
  then have l: "last ?F = CHR '','' \<or> last ?F = CHR ''.''" by auto
  show ?thesis
  proof (cases "last ?F = CHR '',''")
    case True
    with r assms show ?thesis
      by (simp add: normalize_separators_def read_rightmost_as_decimal_def
          rightmost_separator_def replace_delete replace_single)
  next
    case False
    with l have d: "last ?F = CHR ''.''" by simp
    have "map (\<lambda>c. if c = CHR ''.'' then CHR ''.'' else c) (filter (\<lambda>c. c \<noteq> CHR '','') s) =
          filter (\<lambda>c. c \<noteq> CHR '','') s"
      by (induction s) simp_all
    with False d r assms show ?thesis
      by (simp add: normalize_separators_def read_rightmost_as_decimal_def
          rightmost_separator_def replace_delete)
  qed
qed

lemma no_comma_read: "CHR '','' \<notin> set (read_rightmost_as_decimal s)"
  by (auto simp: read_rightmost_as_decimal_def Let_def)

lemma dot_in_read:
  assumes "CHR '','' \<in> set s" "CHR ''.'' \<in> set s"
  shows "CHR ''.'' \<in> set (read_rightmost_as_decimal s)"
proof -
  let ?F = "filter (\<lambda>c. c = CHR '','' \<or> c = CHR ''.'') s"
  from assms have "?F \<noteq> []" by (auto simp: filter_empty_conv)
  then have "last ?F \<in> set ?F" by (rule last_in_set)
  then have l: "rightmost_separator s \<in> set s"
    and l2: "rightmost_separator s = CHR '','' \<or> rightmost_separator s = CHR ''.''"
    by (auto simp: rightmost_separator_def)
  show ?thesis
  proof (cases "rightmost_separator s = CHR '',''")
    case True
    with l have "CHR '','' \<in> set (filter (\<lambda>c. c \<noteq> CHR ''.'') s)" by simp
    then have "(\<lambda>c. if c = CHR '','' then CHR ''.'' else c) CHR '','' \<in>
        set (map (\<lambda>c. if c = CHR '','' then CHR ''.'' else c) (filter (\<lambda>c. c \<noteq> CHR ''.'') s))"
      unfolding set_map by (rule imageI)
    with True show ?thesis by (simp add: read_rightmost_as_decimal_def Let_def)
  next
    case False
    with l2 have d: "rightmost_separator s = CHR ''.''" by simp
    from assms(2) have "CHR ''.'' \<in> set (filter (\<lambda>c. c \<noteq> CHR '','') s)" by simp
    then have "(\<lambda>c. if c = CHR ''.'' then CHR ''.'' else c) CHR ''.'' \<in>
        set (map (\<lambda>c. if c = CHR ''.'' then CHR ''.'' else c) (filter (\<lambda>c. c \<noteq> CHR '','') s))"
      unfolding set_map by (rule imageI)
    with d show ?thesis by (simp add: read_rightmost_as_decimal_def Let_def)
  qed
qed

lemma in_dropWhile: "x \<in> set xs \<Longrightarrow> \<not> P x \<Longrightarrow> x \<in> set (dropWhile P xs)"
  by (induction xs) auto

lemma in_strip: "c \<in> set s \<Longrightarrow> \<not> is_space c \<Longrightarrow> c \<in> set (strip s)"
  by (simp add: strip_def in_dropWhile)

lemma set_strip: "c \<in> set (strip s) \<Longrightarrow> c \<in> set s"
  unfolding strip_def by (metis set_dropWhileD set_rev)

lemma last_dropWhile: "dropWhile P xs \<noteq> [] \<Longrightarrow> last (dropWhile P xs) = last xs"
  by (metis last_appendR takeWhile_dropWhile_id)

lemma strip_idem: "strip (strip s) = strip s"
proof -
  define u where "u = dropWhile is_space s"
  define v where "v = dropWhile is_space (rev u)"
  have s: "strip s = rev v" by (simp add: strip_def u_def v_def)
  have a: "dropWhile is_space (rev v) = rev v"
  proof (cases "v = []")
    case True
    then show ?thesis by simp
  next
    case False
    then have vne: "dropWhile is_space (rev u) \<noteq> []" by (simp add: v_def)
    then have "rev u \<noteq> []" by auto
    then have une: "dropWhile is_space s \<noteq> []" by (simp add: u_def)
    from last_dropWhile[OF vne] have "last v = last (rev u)" by (simp add: v_def)
    also have "\<dots> = hd u" using \<open>rev u \<noteq> []\<close> by (simp add: last_rev)
    finally have "hd (rev v) = hd u" using False by (simp add: hd_rev)
    with hd_dropWhile[OF une] have "\<not> is_space (hd (rev v))" by (simp add: u_def)
    then show ?thesis by (simp add: dropWhile_eq_self_iff)
  qed
  have b: "dropWhile is_space v = v" by (simp add: v_def)
  have "strip (rev v) = rev (dropWhile is_space (rev (dropWhile is_space (rev v))))"
    by (simp only: strip_def)
  also have "\<dots> = rev v" by (simp only: a rev_rev_ident b)
  finally show ?thesis using s by simp
qed

lemma Decimal_strip: "Decimal (strip s) = Decimal s"
  by (simp add: Decimal_def strip_idem)

lemma not_space_sep: "\<not> is_space CHR '',''" "\<not> is_space CHR ''.''"
  by (simp_all add: is_space_def)

text \<open>
  Claim C2. When the input contains both a comma and a point, the normalisation of
  the source (applied to the stripped input) is the reading of the specification: the kind of
  separator that occurs rightmost becomes the decimal point and the other kind is
  removed. The result has no comma left, and the amount parsed from the input is the
  amount parsed from that string.
\<close>

theorem parse_decimal_rightmost_separator:
  assumes c0: "CHR '','' \<in> set raw" and d0: "CHR ''.'' \<in> set raw"
  shows "normalize_separators (strip raw) = read_rightmost_as_decimal (strip raw) \<and>
         CHR '','' \<notin> set (read_rightmost_as_decimal (strip raw)) \<and>
         parse_decimal (Some raw) = parse_decimal (Some (read_rightmost_as_decimal (strip raw))) \<and>
         import_parse_decimal (Some raw) =
           (case Decimal (read_rightmost_as_decimal (strip raw)) of
              None \<Rightarrow> Inl (ValueError (''invalid number: '' @ raw))
            | Some x \<Rightarrow> (case quantize (-2) x of
                          None \<Rightarrow> Inl (ValueError (''invalid number: '' @ raw))
                        | Some q \<Rightarrow> Inr q))"
proof -
  let ?t = "read_rightmost_as_decimal (strip raw)"
  have c: "CHR '','' \<in> set (strip raw)" by (rule in_strip[OF c0 not_space_sep(1)])
  have d: "CHR ''.'' \<in> set (strip raw)" by (rule in_strip[OF d0 not_space_sep(2)])
  have n: "normalize_separators (strip raw) = ?t"
    by (rule normalize_separators_both[OF c d])
  have nc: "CHR '','' \<notin> set ?t" by (rule no_comma_read)
  from c have ne: "strip raw \<noteq> []" by auto
  have dt: "CHR ''.'' \<in> set (strip ?t)"
    by (rule in_strip[OF dot_in_read[OF c d] not_space_sep(2)])
  then have net: "strip ?t \<noteq> []" by auto
  from nc have "CHR '','' \<notin> set (strip ?t)" using set_strip by blast
  then have nt: "normalize_separators (strip ?t) = strip ?t"
    by (simp add: normalize_separators_def)
  have p: "parse_decimal (Some raw) = parse_decimal (Some ?t)"
    using ne net n nt by (simp add: parse_decimal_def Let_def Decimal_strip)
  have i: "import_parse_decimal (Some raw) =
           (case Decimal ?t of
              None \<Rightarrow> Inl (ValueError (''invalid number: '' @ raw))
            | Some x \<Rightarrow> (case quantize (-2) x of
                          None \<Rightarrow> Inl (ValueError (''invalid number: '' @ raw))
                        | Some q \<Rightarrow> Inr q))"
    using ne n by (simp add: import_parse_decimal_def Let_def)
  from n nc p i show ?thesis by (intro conjI)
qed

text \<open>
  The theorem at the two examples of the specification: 1.234,56 and 1,234.56 are both
  read as 1234.56 and parsed to the amount 1234.56.
\<close>

theorem parse_decimal_rightmost_separator_witness:
  "CHR '','' \<in> set ''1.234,56'' \<and> CHR ''.'' \<in> set ''1.234,56'' \<and>
   read_rightmost_as_decimal (strip ''1.234,56'') = ''1234.56'' \<and>
   parse_decimal (Some ''1.234,56'') = parse_decimal (Some ''1234.56'') \<and>
   parse_decimal (Some ''1.234,56'') = Inr (Finite False 123456 (-2)) \<and>
   CHR '','' \<in> set ''1,234.56'' \<and> CHR ''.'' \<in> set ''1,234.56'' \<and>
   read_rightmost_as_decimal (strip ''1,234.56'') = ''1234.56'' \<and>
   parse_decimal (Some ''1,234.56'') = Inr (Finite False 123456 (-2))"
proof -
  have a1: "CHR '','' \<in> set ''1.234,56''" and a2: "CHR ''.'' \<in> set ''1.234,56''"
    by simp_all
  have b1: "CHR '','' \<in> set ''1,234.56''" and b2: "CHR ''.'' \<in> set ''1,234.56''"
    by simp_all
  have a3: "read_rightmost_as_decimal (strip ''1.234,56'') = ''1234.56''"
    by (simp add: read_rightmost_as_decimal_def rightmost_separator_def strip_def is_space_def)
  have b3: "read_rightmost_as_decimal (strip ''1,234.56'') = ''1234.56''"
    by (simp add: read_rightmost_as_decimal_def rightmost_separator_def strip_def is_space_def)
  have v: "parse_decimal (Some ''1234.56'') = Inr (Finite False 123456 (-2))"
    by (simp add: parse_eval)
  from parse_decimal_rightmost_separator[OF a1 a2] a3
  have a4: "parse_decimal (Some ''1.234,56'') = parse_decimal (Some ''1234.56'')" by simp
  from parse_decimal_rightmost_separator[OF b1 b2] b3
  have b4: "parse_decimal (Some ''1,234.56'') = parse_decimal (Some ''1234.56'')" by simp
  from a4 v have a5: "parse_decimal (Some ''1.234,56'') = Inr (Finite False 123456 (-2))" by simp
  from b4 v have b5: "parse_decimal (Some ''1,234.56'') = Inr (Finite False 123456 (-2))" by simp
  from a1 a2 a3 a4 a5 b1 b2 b3 b5 show ?thesis by (intro conjI)
qed

subsection \<open>Parsing a rendered amount again\<close>

lemma of_char_digit_char: "n < 10 \<Longrightarrow> (of_char (digit_char n) :: nat) = 48 + n"
  by (simp add: digit_char_def)

lemma is_digit_digit_char: "n < 10 \<Longrightarrow> is_digit (digit_char n)"
  by (simp add: is_digit_def of_char_digit_char)

lemma digit_val_digit_char: "n < 10 \<Longrightarrow> digit_val (digit_char n) = n"
  by (simp add: digit_val_def of_char_digit_char)

lemma digits_of_is_digit: "list_all is_digit (digits_of n)"
proof (induction n rule: digits_of.induct)
  case (1 n)
  show ?case
  proof (cases "n < 10")
    case True
    then show ?thesis by (subst digits_of.simps) (simp add: is_digit_digit_char)
  next
    case False
    with 1 show ?thesis by (subst digits_of.simps) (simp add: is_digit_digit_char)
  qed
qed


lemma nat_of_digits_snoc: "nat_of_digits (s @ [c]) = 10 * nat_of_digits s + digit_val c"
  by (simp add: nat_of_digits_def)

lemma nat_of_digits_digits_of: "nat_of_digits (digits_of n) = n"
proof (induction n rule: digits_of.induct)
  case (1 n)
  show ?case
  proof (cases "n < 10")
    case True
    then show ?thesis
      by (subst digits_of.simps) (simp add: nat_of_digits_def digit_val_digit_char)
  next
    case False
    with 1 show ?thesis
      by (subst digits_of.simps) (simp add: nat_of_digits_snoc digit_val_digit_char)
  qed
qed

lemma nat_of_digits_zeros:
  "nat_of_digits (replicate k CHR ''0'' @ s) = nat_of_digits s"
  by (induction k) (simp_all add: nat_of_digits_def digit_val_def)

lemma is_digit_not_special:
  assumes "is_digit c"
  shows "\<not> is_space c" "c \<noteq> CHR ''.''" "c \<noteq> CHR '',''" "c \<noteq> CHR ''_''"
    "c \<noteq> CHR ''-''" "c \<noteq> CHR ''+''"
  using assms by (auto simp: is_digit_def is_space_def Let_def)

lemma strip_id:
  assumes "s \<noteq> []" "\<not> is_space (hd s)" "\<not> is_space (last s)"
  shows "strip s = s"
proof -
  from assms have a: "dropWhile is_space s = s" by (simp add: dropWhile_eq_self_iff)
  from assms have "dropWhile is_space (rev s) = rev s"
    by (simp add: dropWhile_eq_self_iff hd_rev)
  with a show ?thesis by (simp add: strip_def)
qed












lemma is_digit_zero: "is_digit CHR ''0''"
  by (simp add: is_digit_def)









subsection \<open>The two date parsers\<close>

lemma digit_val_less: "is_digit c \<Longrightarrow> digit_val c < 10"
  by (auto simp: is_digit_def digit_val_def Let_def)

lemma digit_char_digit_val: "is_digit c \<Longrightarrow> digit_char (digit_val c) = c"
  by (simp add: is_digit_def digit_val_def digit_char_def Let_def)

lemma digits_of_one: "is_digit a \<Longrightarrow> digits_of (digit_val a) = [a]"
  by (subst digits_of.simps) (simp add: digit_val_less digit_char_digit_val)

lemma digits_of_two:
  assumes "is_digit a" "is_digit b" "1 \<le> digit_val a"
  shows "digits_of (10 * digit_val a + digit_val b) = [a, b]"
proof -
  have "(10 * digit_val a + digit_val b) div 10 = digit_val a"
    using digit_val_less[OF assms(2)] by simp
  moreover have "(10 * digit_val a + digit_val b) mod 10 = digit_val b"
    using digit_val_less[OF assms(2)] by simp
  moreover have "\<not> 10 * digit_val a + digit_val b < 10" using assms(3) by simp
  ultimately show ?thesis
    by (subst digits_of.simps)
      (simp add: digits_of_one[OF assms(1)] digit_char_digit_val[OF assms(2)])
qed

lemma in_range_digit:
  "in_range CHR ''1'' CHR ''9'' c \<Longrightarrow> is_digit c \<and> 1 \<le> digit_val c"
  "in_range CHR ''0'' CHR ''2'' c \<Longrightarrow> is_digit c \<and> digit_val c \<le> 2"
  "in_range CHR ''0'' CHR ''1'' c \<Longrightarrow> is_digit c \<and> digit_val c \<le> 1"
  "in_range CHR ''1'' CHR ''2'' c \<Longrightarrow> is_digit c \<and> 1 \<le> digit_val c \<and> digit_val c \<le> 2"
  by (auto simp: in_range_def is_digit_def digit_val_def Let_def)

lemma const_digit:
  "is_digit CHR ''0''" "digit_val CHR ''0'' = 0"
  "is_digit CHR ''1''" "digit_val CHR ''1'' = 1"
  "is_digit CHR ''3''" "digit_val CHR ''3'' = 3"
  by (simp_all add: is_digit_def digit_val_def)

lemma alt2_D:
  assumes "(v, t) \<in> set (alt2 P Q s)"
  shows "\<exists>a b. s = a # b # t \<and> P a \<and> Q b \<and> v = 10 * digit_val a + digit_val b"
  using assms by (auto simp: alt2_def split: list.splits if_splits)

lemma alt1_D:
  assumes "(v, t) \<in> set (alt1 P s)"
  shows "\<exists>a. s = a # t \<and> P a \<and> v = digit_val a"
  using assms by (auto simp: alt1_def split: list.splits if_splits)

lemma alt_space_D:
  assumes "(v, t) \<in> set (alt_space P s)"
  shows "\<exists>b. s = CHR '' '' # b # t \<and> P b \<and> v = digit_val b"
  using assms by (auto simp: alt_space_def split: list.splits if_splits)

lemma zfill2_one: "is_digit b \<Longrightarrow> zfill 2 (digits_of (digit_val b)) = [CHR ''0'', b]"
  by (simp add: zfill_def digits_of_one)

lemma zfill2_two:
  "is_digit a \<Longrightarrow> is_digit b \<Longrightarrow> 1 \<le> digit_val a \<Longrightarrow>
   zfill 2 (digits_of (10 * digit_val a + digit_val b)) = [a, b]"
  by (simp add: zfill_def digits_of_two)

lemma re_m_D:
  assumes "(m, t) \<in> set (re_m s)"
  shows "1 \<le> m \<and> m \<le> 12 \<and> (\<exists>x \<in> set (month_forms m). s = x @ t)"
proof -
  from assms consider
      (a) "(m, t) \<in> set (alt2 (\<lambda>c. c = CHR ''1'') (in_range CHR ''0'' CHR ''2'') s)"
    | (b) "(m, t) \<in> set (alt2 (\<lambda>c. c = CHR ''0'') (in_range CHR ''1'' CHR ''9'') s)"
    | (c) "(m, t) \<in> set (alt1 (in_range CHR ''1'' CHR ''9'') s)"
    by (auto simp: re_m_def)
  then show ?thesis
  proof cases
    case a
    from alt2_D[OF a] obtain b where s: "s = CHR ''1'' # b # t"
      and b: "in_range CHR ''0'' CHR ''2'' b" and m: "m = 10 * digit_val CHR ''1'' + digit_val b"
      by blast
    from in_range_digit(2)[OF b] have db: "is_digit b" "digit_val b \<le> 2" by simp_all
    have "zfill 2 (digits_of m) = [CHR ''1'', b]"
      unfolding m by (rule zfill2_two) (simp_all add: const_digit db)
    with s m db show ?thesis by (simp add: month_forms_def const_digit)
  next
    case b
    from alt2_D[OF b] obtain c where s: "s = CHR ''0'' # c # t"
      and c: "in_range CHR ''1'' CHR ''9'' c" and m: "m = 10 * digit_val CHR ''0'' + digit_val c"
      by blast
    from in_range_digit(1)[OF c] have dc: "is_digit c" "1 \<le> digit_val c" by simp_all
    have m': "m = digit_val c" using m by (simp add: const_digit)
    have "zfill 2 (digits_of m) = [CHR ''0'', c]"
      unfolding m' by (rule zfill2_one[OF dc(1)])
    with s m' dc digit_val_less[OF dc(1)] show ?thesis by (simp add: month_forms_def)
  next
    case c
    from alt1_D[OF c] obtain a where s: "s = a # t"
      and a: "in_range CHR ''1'' CHR ''9'' a" and m: "m = digit_val a"
      by blast
    from in_range_digit(1)[OF a] have da: "is_digit a" "1 \<le> digit_val a" by simp_all
    have "digits_of m = [a]" unfolding m by (rule digits_of_one[OF da(1)])
    with s m da digit_val_less[OF da(1)] show ?thesis by (simp add: month_forms_def)
  qed
qed

lemma re_d_D:
  assumes "(d, t) \<in> set (re_d s)"
  shows "1 \<le> d \<and> d \<le> 31 \<and> (\<exists>x \<in> set (day_forms d). s = x @ t)"
proof -
  from assms consider
      (a) "(d, t) \<in> set (alt2 (\<lambda>c. c = CHR ''3'') (in_range CHR ''0'' CHR ''1'') s)"
    | (b) "(d, t) \<in> set (alt2 (in_range CHR ''1'' CHR ''2'') is_digit s)"
    | (c) "(d, t) \<in> set (alt2 (\<lambda>c. c = CHR ''0'') (in_range CHR ''1'' CHR ''9'') s)"
    | (e) "(d, t) \<in> set (alt1 (in_range CHR ''1'' CHR ''9'') s)"
    | (f) "(d, t) \<in> set (alt_space (in_range CHR ''1'' CHR ''9'') s)"
    by (auto simp: re_d_def)
  then show ?thesis
  proof cases
    case a
    from alt2_D[OF a] obtain b where s: "s = CHR ''3'' # b # t"
      and b: "in_range CHR ''0'' CHR ''1'' b" and d: "d = 10 * digit_val CHR ''3'' + digit_val b"
      by blast
    from in_range_digit(3)[OF b] have db: "is_digit b" "digit_val b \<le> 1" by simp_all
    have "zfill 2 (digits_of d) = [CHR ''3'', b]"
      unfolding d by (rule zfill2_two) (simp_all add: const_digit db)
    with s d db show ?thesis by (simp add: day_forms_def const_digit)
  next
    case b
    from alt2_D[OF b] obtain a c where s: "s = a # c # t"
      and a: "in_range CHR ''1'' CHR ''2'' a" and c: "is_digit c"
      and d: "d = 10 * digit_val a + digit_val c"
      by blast
    from in_range_digit(4)[OF a] have da: "is_digit a" "1 \<le> digit_val a" "digit_val a \<le> 2"
      by simp_all
    have "zfill 2 (digits_of d) = [a, c]"
      unfolding d by (rule zfill2_two[OF da(1) c da(2)])
    with s d da digit_val_less[OF c] show ?thesis by (simp add: day_forms_def)
  next
    case c
    from alt2_D[OF c] obtain b where s: "s = CHR ''0'' # b # t"
      and b: "in_range CHR ''1'' CHR ''9'' b" and d: "d = 10 * digit_val CHR ''0'' + digit_val b"
      by blast
    from in_range_digit(1)[OF b] have db: "is_digit b" "1 \<le> digit_val b" by simp_all
    have d': "d = digit_val b" using d by (simp add: const_digit)
    have "zfill 2 (digits_of d) = [CHR ''0'', b]"
      unfolding d' by (rule zfill2_one[OF db(1)])
    with s d' db digit_val_less[OF db(1)] show ?thesis by (simp add: day_forms_def)
  next
    case e
    from alt1_D[OF e] obtain a where s: "s = a # t"
      and a: "in_range CHR ''1'' CHR ''9'' a" and d: "d = digit_val a"
      by blast
    from in_range_digit(1)[OF a] have da: "is_digit a" "1 \<le> digit_val a" by simp_all
    have "digits_of d = [a]" unfolding d by (rule digits_of_one[OF da(1)])
    with s d da digit_val_less[OF da(1)] show ?thesis by (simp add: day_forms_def)
  next
    case f
    from alt_space_D[OF f] obtain b where s: "s = CHR '' '' # b # t"
      and b: "in_range CHR ''1'' CHR ''9'' b" and d: "d = digit_val b"
      by blast
    from in_range_digit(1)[OF b] have db: "is_digit b" "1 \<le> digit_val b" by simp_all
    have "digits_of d = [b]" unfolding d by (rule digits_of_one[OF db(1)])
    with s d db digit_val_less[OF db(1)] show ?thesis by (simp add: day_forms_def)
  qed
qed


lemma nat_of_digits_bound: "list_all is_digit ds \<Longrightarrow> nat_of_digits ds < 10 ^ length ds"
proof (induction ds rule: rev_induct)
  case Nil
  show ?case by (simp add: nat_of_digits_def)
next
  case (snoc c ds)
  then have "nat_of_digits ds < 10 ^ length ds" and "digit_val c < 10"
    by (simp_all add: digit_val_less)
  then show ?case by (simp add: nat_of_digits_snoc)
qed

lemma zfill_snoc: "zfill (Suc k) (x @ [c]) = zfill k x @ [c]"
  by (simp add: zfill_def)

lemma zfill_digits_of_nat_of_digits:
  "list_all is_digit ds \<Longrightarrow> ds \<noteq> [] \<Longrightarrow> zfill (length ds) (digits_of (nat_of_digits ds)) = ds"
proof (induction ds rule: rev_induct)
  case Nil
  then show ?case by simp
next
  case (snoc c ds)
  from snoc.prems have c: "is_digit c" and dd: "list_all is_digit ds" by simp_all
  define N where "N = nat_of_digits ds"
  have v: "digit_val c < 10" by (rule digit_val_less[OF c])
  have n: "nat_of_digits (ds @ [c]) = 10 * N + digit_val c"
    by (simp add: nat_of_digits_snoc N_def)
  show ?case
  proof (cases "N = 0")
    case True
    have d1: "digits_of (nat_of_digits (ds @ [c])) = [c]"
      using True n by (simp add: digits_of_one[OF c])
    show ?thesis
    proof (cases "ds = []")
      case True
      with d1 show ?thesis by (simp add: zfill_def)
    next
      case False
      from snoc.IH[OF dd False] \<open>N = 0\<close>
      have "zfill (length ds) (digits_of 0) = ds" by (simp add: N_def)
      moreover have "digits_of 0 = [CHR ''0'']"
        by (subst digits_of.simps) (simp add: digit_char_simps)
      ultimately have ds: "ds = replicate (length ds - 1) CHR ''0'' @ [CHR ''0'']"
        by (simp add: zfill_def)
      have "replicate (length ds - 1) CHR ''0'' @ [CHR ''0''] = replicate (length ds) CHR ''0''"
        using False by (cases ds) (simp_all add: replicate_append_same)
      with ds have "ds = replicate (length ds) CHR ''0''" by simp
      then have "replicate (length ds) CHR ''0'' @ [c] = ds @ [c]" by simp
      with d1 show ?thesis by (simp add: zfill_def)
    qed
  next
    case False
    then have nn: "\<not> 10 * N + digit_val c < 10" by simp
    have "(10 * N + digit_val c) div 10 = N" "(10 * N + digit_val c) mod 10 = digit_val c"
      using v by simp_all
    with nn have d2: "digits_of (nat_of_digits (ds @ [c])) = digits_of N @ [c]"
      unfolding n by (subst digits_of.simps) (simp add: digit_char_digit_val[OF c])
    have dne: "ds \<noteq> []"
    proof
      assume "ds = []"
      with False show False by (simp add: N_def nat_of_digits_def)
    qed
    from snoc.IH[OF dd dne] have "zfill (length ds) (digits_of N) = ds" by (simp add: N_def)
    with d2 show ?thesis by (simp add: zfill_snoc)
  qed
qed

lemma re_Y_D:
  assumes "(y, t) \<in> set (re_Y s)"
  shows "y \<le> 9999 \<and> s = zfill 4 (digits_of y) @ t"
proof -
  from assms have l: "4 \<le> length s" and dd: "list_all is_digit (take 4 s)"
    and y: "y = nat_of_digits (take 4 s)" and t: "t = drop 4 s"
    by (auto simp: re_Y_def split: if_splits)
  from l have len: "length (take 4 s) = 4" by simp
  then have ne: "take 4 s \<noteq> []" by auto
  from nat_of_digits_bound[OF dd] len y have "y < 10 ^ 4" by simp
  then have yb: "y \<le> 9999" by simp
  from zfill_digits_of_nat_of_digits[OF dd ne] len y have "zfill 4 (digits_of y) = take 4 s"
    by simp
  with t have "s = zfill 4 (digits_of y) @ t" by simp
  with yb show ?thesis by simp
qed

lemma lit_D: "t \<in> set (lit c s) \<Longrightarrow> s = c # t"
  by (auto simp: lit_def split: list.splits if_splits)

lemma zfill_digits:
  assumes "n < 10 ^ k" "0 < k"
  shows "length (zfill k (digits_of n)) = k" "list_all is_digit (zfill k (digits_of n))"
    "nat_of_digits (zfill k (digits_of n)) = n"
proof -
  from ndigits_le[OF assms(2,1)] have "length (digits_of n) \<le> k" by (simp add: ndigits_def)
  then show "length (zfill k (digits_of n)) = k" by (simp add: zfill_def)
  show "list_all is_digit (zfill k (digits_of n))"
    using digits_of_is_digit[of n] by (auto simp: zfill_def list_all_iff is_digit_zero)
  show "nat_of_digits (zfill k (digits_of n)) = n"
    by (simp add: zfill_def nat_of_digits_zeros nat_of_digits_digits_of)
qed

lemma re_Y_zfill:
  assumes "y \<le> 9999"
  shows "re_Y (zfill 4 (digits_of y) @ t) = [(y, t)]"
proof -
  from assms have "y < 10 ^ 4" by simp
  from zfill_digits[OF this] show ?thesis by (simp add: re_Y_def)
qed

lemma lit_Cons: "lit c (c # t) = [t]"
  by (simp add: lit_def)


lemmas re_eval =
  zfill_def digits_of.simps digit_char_simps re_m_def re_d_def alt2_def alt1_def alt_space_def
  in_range_def is_digit_def digit_val_def Let_def

lemma re_m_form:
  assumes "1 \<le> m" "m \<le> 12" "x \<in> set (month_forms m)" "t = [] \<or> \<not> is_digit (hd t)"
  shows "\<exists>rest. re_m (x @ t) = (m, t) # rest"
proof -
  from assms(1,2) have "m \<in> {1, 2, 3, 4, 5, 6, 7, 8, 9, 10, 11, 12}" by (simp, arith)
  then show ?thesis using assms(3,4)
    by (elim insertE emptyE; cases t) (auto simp: month_forms_def re_eval)
qed

lemma re_d_form:
  assumes "1 \<le> d" "d \<le> 31" "x \<in> set (day_forms d)" "t = [] \<or> \<not> is_digit (hd t)"
  shows "\<exists>rest. re_d (x @ t) = (d, t) # rest"
proof -
  from assms(1,2) have "d \<in> {1, 2, 3, 4, 5, 6, 7, 8, 9, 10, 11, 12, 13, 14, 15, 16, 17, 18, 19, 20,
      21, 22, 23, 24, 25, 26, 27, 28, 29, 30, 31}" by (simp, arith)
  then show ?thesis using assms(3,4)
    by (elim insertE emptyE; cases t) (auto simp: day_forms_def re_eval)
qed


lemma strptime_finish_Inr:
  "strptime_finish ms = Inr dt \<Longrightarrow> (dt, []) \<in> set ms \<and> valid_date dt"
  by (auto simp: strptime_finish_def split: list.splits if_splits)

lemma strptime_finish_Inl:
  "strptime_finish ms = Inl e \<Longrightarrow> \<exists>msg. e = ValueError msg"
  by (auto simp: strptime_finish_def split: list.splits if_splits)

lemma not_digit_sep: "\<not> is_digit CHR ''-''" "\<not> is_digit CHR ''.''"
  by (simp_all add: is_digit_def)

lemma strptime_Ymd_accepts:
  assumes v: "valid_date (y, m, d)" and s: "s \<in> set (ymd_renderings (y, m, d))"
  shows "strptime_Ymd s = Inr (y, m, d)"
proof -
  from s obtain ms ds where ms: "ms \<in> set (month_forms m)" and ds: "ds \<in> set (day_forms d)"
    and s': "s = zfill 4 (digits_of y) @ CHR ''-'' # ms @ CHR ''-'' # ds"
    by (auto simp: ymd_renderings_def)
  from v have yb: "y \<le> 9999" and mb: "1 \<le> m" "m \<le> 12" and db: "1 \<le> d" "d \<le> 31"
    by (auto simp: valid_date_def days_in_month_def split: if_splits)
  have 1: "re_Y s = [(y, CHR ''-'' # ms @ CHR ''-'' # ds)]"
    unfolding s' by (rule re_Y_zfill[OF yb])
  from re_m_form[OF mb ms, of "CHR ''-'' # ds"] obtain rm where
    2: "re_m (ms @ CHR ''-'' # ds) = (m, CHR ''-'' # ds) # rm"
    by (auto simp: not_digit_sep)
  from re_d_form[OF db ds, of "[]"] obtain rd where 3: "re_d ds = (d, []) # rd"
    by auto
  from 1 2 3 v show ?thesis
    by (simp add: strptime_Ymd_def lit_Cons strptime_finish_def)
qed

lemma strptime_Ymd_sound:
  assumes "strptime_Ymd s = Inr dt"
  shows "valid_date dt \<and> s \<in> set (ymd_renderings dt)"
proof -
  from strptime_finish_Inr[OF assms[unfolded strptime_Ymd_def]]
  have v: "valid_date dt" and
    "(dt, []) \<in> set [((y, m, d), r5).
          (y, r1) \<leftarrow> re_Y s, r2 \<leftarrow> lit CHR ''-'' r1,
          (m, r3) \<leftarrow> re_m r2, r4 \<leftarrow> lit CHR ''-'' r3,
          (d, r5) \<leftarrow> re_d r4]"
    by simp_all
  then obtain y r1 r2 m r3 r4 d where dt: "dt = (y, m, d)"
    and a: "(y, r1) \<in> set (re_Y s)" and b: "r2 \<in> set (lit CHR ''-'' r1)"
    and c: "(m, r3) \<in> set (re_m r2)" and e: "r4 \<in> set (lit CHR ''-'' r3)"
    and f: "(d, []) \<in> set (re_d r4)"
    by auto
  from re_Y_D[OF a] have s1: "s = zfill 4 (digits_of y) @ r1" by simp
  from lit_D[OF b] have s2: "r1 = CHR ''-'' # r2" .
  from re_m_D[OF c] obtain xm where xm: "xm \<in> set (month_forms m)" and s3: "r2 = xm @ r3"
    by blast
  from lit_D[OF e] have s4: "r3 = CHR ''-'' # r4" .
  from re_d_D[OF f] obtain xd where xd: "xd \<in> set (day_forms d)" and s5: "r4 = xd"
    by auto
  have "s = zfill 4 (digits_of y) @ ''-'' @ xm @ ''-'' @ xd"
    by (simp add: s1 s2 s3 s4 s5)
  with xm xd have "s \<in> set (ymd_renderings (y, m, d))"
    by (auto simp: ymd_renderings_def)
  with v dt show ?thesis by simp
qed

lemma strptime_dmY_accepts:
  assumes v: "valid_date (y, m, d)" and s: "s \<in> set (dmy_renderings (y, m, d))"
  shows "strptime_dmY s = Inr (y, m, d)"
proof -
  from s obtain ms ds where ms: "ms \<in> set (month_forms m)" and ds: "ds \<in> set (day_forms d)"
    and s': "s = ds @ CHR ''.'' # ms @ CHR ''.'' # zfill 4 (digits_of y)"
    by (auto simp: dmy_renderings_def)
  from v have yb: "y \<le> 9999" and mb: "1 \<le> m" "m \<le> 12" and db: "1 \<le> d" "d \<le> 31"
    by (auto simp: valid_date_def days_in_month_def split: if_splits)
  from re_d_form[OF db ds, of "CHR ''.'' # ms @ CHR ''.'' # zfill 4 (digits_of y)"] obtain rd where
    1: "re_d s = (d, CHR ''.'' # ms @ CHR ''.'' # zfill 4 (digits_of y)) # rd"
    unfolding s' by (auto simp: not_digit_sep)
  from re_m_form[OF mb ms, of "CHR ''.'' # zfill 4 (digits_of y)"] obtain rm where
    2: "re_m (ms @ CHR ''.'' # zfill 4 (digits_of y)) = (m, CHR ''.'' # zfill 4 (digits_of y)) # rm"
    by (auto simp: not_digit_sep)
  have 3: "re_Y (zfill 4 (digits_of y)) = [(y, [])]"
    using re_Y_zfill[OF yb, of "[]"] by simp
  from 1 2 3 v show ?thesis
    by (simp add: strptime_dmY_def lit_Cons strptime_finish_def)
qed

lemma strptime_dmY_sound:
  assumes "strptime_dmY s = Inr dt"
  shows "valid_date dt \<and> s \<in> set (dmy_renderings dt)"
proof -
  from strptime_finish_Inr[OF assms[unfolded strptime_dmY_def]]
  have v: "valid_date dt" and
    "(dt, []) \<in> set [((y, m, d), r5).
          (d, r1) \<leftarrow> re_d s, r2 \<leftarrow> lit CHR ''.'' r1,
          (m, r3) \<leftarrow> re_m r2, r4 \<leftarrow> lit CHR ''.'' r3,
          (y, r5) \<leftarrow> re_Y r4]"
    by simp_all
  then obtain y r1 r2 m r3 r4 d where dt: "dt = (y, m, d)"
    and a: "(d, r1) \<in> set (re_d s)" and b: "r2 \<in> set (lit CHR ''.'' r1)"
    and c: "(m, r3) \<in> set (re_m r2)" and e: "r4 \<in> set (lit CHR ''.'' r3)"
    and f: "(y, []) \<in> set (re_Y r4)"
    by auto
  from re_d_D[OF a] obtain xd where xd: "xd \<in> set (day_forms d)" and s1: "s = xd @ r1"
    by blast
  from lit_D[OF b] have s2: "r1 = CHR ''.'' # r2" .
  from re_m_D[OF c] obtain xm where xm: "xm \<in> set (month_forms m)" and s3: "r2 = xm @ r3"
    by blast
  from lit_D[OF e] have s4: "r3 = CHR ''.'' # r4" .
  from re_Y_D[OF f] have s5: "r4 = zfill 4 (digits_of y)" by simp
  have "s = xd @ ''.'' @ xm @ ''.'' @ zfill 4 (digits_of y)"
    by (simp add: s1 s2 s3 s4 s5)
  with xm xd have "s \<in> set (dmy_renderings (y, m, d))"
    by (auto simp: dmy_renderings_def)
  with v dt show ?thesis by simp
qed


lemma list2: "length xs = 2 \<Longrightarrow> \<exists>a b. xs = [a, b]"
  by (auto simp: numeral_eq_Suc length_Suc_conv)

lemma list4: "length xs = 4 \<Longrightarrow> \<exists>a b c d. xs = [a, b, c, d]"
  by (auto simp: numeral_eq_Suc length_Suc_conv)

lemma canonical_forms:
  assumes v: "valid_date (y, m, d)"
  shows "iso (y, m, d) \<in> set (ymd_renderings (y, m, d))"
    and "iso_format (iso (y, m, d))"
    and "dmy (y, m, d) \<in> set (dmy_renderings (y, m, d))"
    and "dmy_format (dmy (y, m, d))"
    and "strip (dmy (y, m, d)) = dmy (y, m, d)"
proof -
  from v have yb: "y < 10 ^ 4" and mb: "m < 10 ^ 2" and db: "d < 10 ^ 2"
    by (auto simp: valid_date_def days_in_month_def split: if_splits)
  from zfill_digits[OF yb] list4 obtain a b c e where
    Y: "zfill 4 (digits_of y) = [a, b, c, e]" and Yd: "list_all is_digit [a, b, c, e]"
    by (metis zero_less_numeral)
  from zfill_digits[OF mb] list2 obtain f g where
    M: "zfill 2 (digits_of m) = [f, g]" and Md: "list_all is_digit [f, g]"
    by (metis zero_less_numeral)
  from zfill_digits[OF db] list2 obtain h i where
    D: "zfill 2 (digits_of d) = [h, i]" and Dd: "list_all is_digit [h, i]"
    by (metis zero_less_numeral)
  show "iso (y, m, d) \<in> set (ymd_renderings (y, m, d))"
    by (simp add: iso_def ymd_renderings_def month_forms_def day_forms_def)
  show "dmy (y, m, d) \<in> set (dmy_renderings (y, m, d))"
    by (simp add: dmy_def dmy_renderings_def month_forms_def day_forms_def)
  show "iso_format (iso (y, m, d))"
    using Yd Md Dd by (simp add: iso_def iso_format_def Y M D)
  show "dmy_format (dmy (y, m, d))"
    using Yd Md Dd by (simp add: dmy_def dmy_format_def Y M D)
  have "\<not> is_space h" "\<not> is_space e"
    using Dd Yd is_digit_not_special(1) by simp_all
  then show "strip (dmy (y, m, d)) = dmy (y, m, d)"
    by (intro strip_id) (simp_all add: dmy_def Y M D)
qed

text \<open>
  Claim C7 as stated does not hold: the parser of the form accepts 2024-1-5, which is
  not of the shape YYYY-MM-DD, and the parser of the import accepts 1.2.2024 with
  blanks around it, which is not of the shape DD.MM.YYYY.
\<close>

theorem date_parsers_exact_format_counterexample:
  "parse_date (2024, 6, 1) (Some ''2024-1-5'') = Inr (2024, 1, 5) \<and>
   \<not> iso_format ''2024-1-5'' \<and>
   parse_date_ddmmyyyy (Some '' 1.2.2024 '') = Inr (2024, 2, 1) \<and>
   \<not> dmy_format '' 1.2.2024 ''"
  by (simp add: iso_format_def dmy_format_def parse_eval)

text \<open>
  Claim C7, amended. The parser of the form returns today's date for a missing or empty
  input. A non-empty input is accepted exactly when it writes a valid calendar date as
  a four-digit year, a month and a day separated by hyphens, the month and the day
  with or without a leading zero; the ISO rendering of every valid date is among
  these; every other input fails with the error \<^verbatim>\<open>invalid date\<close>. The parser of the
  import strips surrounding whitespace first; an input that is then empty fails with
  \<^verbatim>\<open>Empty date\<close>; otherwise it is accepted exactly when the stripped input writes a
  valid date as day, month and four-digit year separated by points, with the same
  freedom for leading zeros; the DD.MM.YYYY rendering of every valid date is among
  these; every other input fails with a \<^verbatim>\<open>ValueError\<close>. Each parser tries its one
  format only.
\<close>

theorem date_parsers_accept:
  "parse_date today None = Inr today \<and>
   parse_date today (Some []) = Inr today \<and>
   (\<forall>s. s \<noteq> [] \<longrightarrow>
      (\<forall>dt. parse_date today (Some s) = Inr dt \<longleftrightarrow>
             valid_date dt \<and> s \<in> set (ymd_renderings dt)) \<and>
      (\<forall>e. parse_date today (Some s) = Inl e \<longrightarrow> e = ValueError ''invalid date'')) \<and>
   (\<forall>dt. valid_date dt \<longrightarrow>
      iso_format (iso dt) \<and> parse_date today (Some (iso dt)) = Inr dt) \<and>
   (\<forall>v. strip (case v of None \<Rightarrow> [] | Some x \<Rightarrow> x) = [] \<longrightarrow>
      parse_date_ddmmyyyy v = Inl (ValueError ''Empty date'')) \<and>
   (\<forall>s. strip s \<noteq> [] \<longrightarrow>
      (\<forall>dt. parse_date_ddmmyyyy (Some s) = Inr dt \<longleftrightarrow>
             valid_date dt \<and> strip s \<in> set (dmy_renderings dt)) \<and>
      (\<forall>e. parse_date_ddmmyyyy (Some s) = Inl e \<longrightarrow> (\<exists>msg. e = ValueError msg))) \<and>
   (\<forall>dt. valid_date dt \<longrightarrow>
      dmy_format (dmy dt) \<and> parse_date_ddmmyyyy (Some (dmy dt)) = Inr dt)"
proof -
  have 1: "parse_date today None = Inr today" "parse_date today (Some []) = Inr today"
    by (simp_all add: parse_date_def)
  have ui_iff: "parse_date today (Some s) = Inr dt \<longleftrightarrow>
             valid_date dt \<and> s \<in> set (ymd_renderings dt)" if "s \<noteq> []" for s dt
  proof
    assume "parse_date today (Some s) = Inr dt"
    with that have "strptime_Ymd s = Inr dt"
      by (simp add: parse_date_def split: sum.splits)
    then show "valid_date dt \<and> s \<in> set (ymd_renderings dt)" by (rule strptime_Ymd_sound)
  next
    assume a: "valid_date dt \<and> s \<in> set (ymd_renderings dt)"
    obtain y m d where dt: "dt = (y, m, d)" by (cases dt)
    from a have "strptime_Ymd s = Inr dt"
      unfolding dt by (intro strptime_Ymd_accepts) simp_all
    with that show "parse_date today (Some s) = Inr dt" by (simp add: parse_date_def)
  qed
  have ui_err: "e = ValueError ''invalid date''"
    if "s \<noteq> []" "parse_date today (Some s) = Inl e" for s e
    using that by (simp add: parse_date_def split: sum.splits)
  have 2: "\<forall>s. s \<noteq> [] \<longrightarrow>
      (\<forall>dt. parse_date today (Some s) = Inr dt \<longleftrightarrow>
             valid_date dt \<and> s \<in> set (ymd_renderings dt)) \<and>
      (\<forall>e. parse_date today (Some s) = Inl e \<longrightarrow> e = ValueError ''invalid date'')"
    using ui_iff ui_err by blast
  have 3: "\<forall>dt. valid_date dt \<longrightarrow>
      iso_format (iso dt) \<and> parse_date today (Some (iso dt)) = Inr dt"
  proof (intro allI impI)
    fix dt :: date assume v: "valid_date dt"
    obtain y m d where dt: "dt = (y, m, d)" by (cases dt)
    from canonical_forms(1,2)[OF v[unfolded dt]]
    have r: "iso dt \<in> set (ymd_renderings dt)" and f: "iso_format (iso dt)"
      by (simp_all add: dt)
    from f have "iso dt \<noteq> []" by (auto simp: iso_format_def)
    from ui_iff[OF this, of dt] v r f
    show "iso_format (iso dt) \<and> parse_date today (Some (iso dt)) = Inr dt" by simp
  qed
  have 4: "\<forall>v. strip (case v of None \<Rightarrow> [] | Some x \<Rightarrow> x) = [] \<longrightarrow>
      parse_date_ddmmyyyy v = Inl (ValueError ''Empty date'')"
    by (simp add: parse_date_ddmmyyyy_def)
  have csv_iff: "parse_date_ddmmyyyy (Some s) = Inr dt \<longleftrightarrow>
             valid_date dt \<and> strip s \<in> set (dmy_renderings dt)" if "strip s \<noteq> []" for s dt
  proof
    assume "parse_date_ddmmyyyy (Some s) = Inr dt"
    with that have "strptime_dmY (strip s) = Inr dt"
      by (simp add: parse_date_ddmmyyyy_def)
    then show "valid_date dt \<and> strip s \<in> set (dmy_renderings dt)"
      by (rule strptime_dmY_sound)
  next
    assume a: "valid_date dt \<and> strip s \<in> set (dmy_renderings dt)"
    obtain y m d where dt: "dt = (y, m, d)" by (cases dt)
    from a have "strptime_dmY (strip s) = Inr dt"
      unfolding dt by (intro strptime_dmY_accepts) simp_all
    with that show "parse_date_ddmmyyyy (Some s) = Inr dt"
      by (simp add: parse_date_ddmmyyyy_def)
  qed
  have csv_err: "\<exists>msg. e = ValueError msg"
    if "strip s \<noteq> []" "parse_date_ddmmyyyy (Some s) = Inl e" for s e
  proof -
    from that have "strptime_finish [((y, m, d), r5).
          (d, r1) \<leftarrow> re_d (strip s), r2 \<leftarrow> lit CHR ''.'' r1,
          (m, r3) \<leftarrow> re_m r2, r4 \<leftarrow> lit CHR ''.'' r3,
          (y, r5) \<leftarrow> re_Y r4] = Inl e"
      by (simp add: parse_date_ddmmyyyy_def strptime_dmY_def)
    then show ?thesis by (rule strptime_finish_Inl)
  qed
  have 5: "\<forall>s. strip s \<noteq> [] \<longrightarrow>
      (\<forall>dt. parse_date_ddmmyyyy (Some s) = Inr dt \<longleftrightarrow>
             valid_date dt \<and> strip s \<in> set (dmy_renderings dt)) \<and>
      (\<forall>e. parse_date_ddmmyyyy (Some s) = Inl e \<longrightarrow> (\<exists>msg. e = ValueError msg))"
    using csv_iff csv_err by blast
  have 6: "\<forall>dt. valid_date dt \<longrightarrow>
      dmy_format (dmy dt) \<and> parse_date_ddmmyyyy (Some (dmy dt)) = Inr dt"
  proof (intro allI impI)
    fix dt :: date assume v: "valid_date dt"
    obtain y m d where dt: "dt = (y, m, d)" by (cases dt)
    from canonical_forms(3,4,5)[OF v[unfolded dt]]
    have r: "dmy dt \<in> set (dmy_renderings dt)" and f: "dmy_format (dmy dt)"
      and st: "strip (dmy dt) = dmy dt"
      by (simp_all add: dt)
    from f have "dmy dt \<noteq> []" by (auto simp: dmy_format_def)
    with st have "strip (dmy dt) \<noteq> []" by simp
    from csv_iff[OF this, of dt] v r f st
    show "dmy_format (dmy dt) \<and> parse_date_ddmmyyyy (Some (dmy dt)) = Inr dt" by simp
  qed
  from 1 2 3 4 5 6 show ?thesis by (intro conjI)
qed

text \<open>
  The theorem at concrete inputs: 2024-1-5 and 2024-03-01 are accepted by the form,
  2024-02-30 is an invalid date; blanks alone are an empty date for the import,
  1.2.2024 between blanks and 01.03.2024 are accepted.
\<close>

lemmas rendering_eval =
  ymd_renderings_def dmy_renderings_def month_forms_def day_forms_def zfill_def
  digits_of.simps digit_char_simps iso_def dmy_def

theorem date_parsers_accept_witness:
  "valid_date (2024, 1, 5) \<and> ''2024-1-5'' \<in> set (ymd_renderings (2024, 1, 5)) \<and>
   parse_date (2024, 6, 1) (Some ''2024-1-5'') = Inr (2024, 1, 5) \<and>
   parse_date (2024, 6, 1) (Some ''2024-02-30'') = Inl (ValueError ''invalid date'') \<and>
   valid_date (2024, 3, 1) \<and> iso (2024, 3, 1) = ''2024-03-01'' \<and>
   parse_date (2024, 6, 1) (Some ''2024-03-01'') = Inr (2024, 3, 1) \<and>
   strip ''  '' = [] \<and> parse_date_ddmmyyyy (Some ''  '') = Inl (ValueError ''Empty date'') \<and>
   strip '' 1.2.2024 '' = ''1.2.2024'' \<and> ''1.2.2024'' \<in> set (dmy_renderings (2024, 2, 1)) \<and>
   valid_date (2024, 2, 1) \<and>
   parse_date_ddmmyyyy (Some '' 1.2.2024 '') = Inr (2024, 2, 1) \<and>
   dmy (2024, 3, 1) = ''01.03.2024'' \<and>
   parse_date_ddmmyyyy (Some ''01.03.2024'') = Inr (2024, 3, 1)"
proof -
  note t = date_parsers_accept[of "(2024, 6, 1)"]
  from t have ui: "\<And>s dt. s \<noteq> [] \<Longrightarrow>
      (parse_date (2024, 6, 1) (Some s) = Inr dt) =
      (valid_date dt \<and> s \<in> set (ymd_renderings dt))"
    by blast
  from t have ui_iso: "\<And>dt. valid_date dt \<Longrightarrow>
      parse_date (2024, 6, 1) (Some (iso dt)) = Inr dt"
    by blast
  from t have csv_empty: "\<And>v. strip (case v of None \<Rightarrow> [] | Some x \<Rightarrow> x) = [] \<Longrightarrow>
      parse_date_ddmmyyyy v = Inl (ValueError ''Empty date'')"
    by blast
  from t have csv: "\<And>s dt. strip s \<noteq> [] \<Longrightarrow>
      (parse_date_ddmmyyyy (Some s) = Inr dt) =
      (valid_date dt \<and> strip s \<in> set (dmy_renderings dt))"
    by blast
  from t have csv_dmy: "\<And>dt. valid_date dt \<Longrightarrow>
      parse_date_ddmmyyyy (Some (dmy dt)) = Inr dt"
    by blast
  have v1: "valid_date (2024, 1, 5)" and v2: "valid_date (2024, 3, 1)"
    and v3: "valid_date (2024, 2, 1)"
    by (simp_all add: valid_date_def days_in_month_def is_leap_def)
  have r1: "''2024-1-5'' \<in> set (ymd_renderings (2024, 1, 5))"
    by (simp add: rendering_eval)
  have p1: "parse_date (2024, 6, 1) (Some ''2024-1-5'') = Inr (2024, 1, 5)"
    using ui[of "''2024-1-5''" "(2024, 1, 5)"] v1 r1 by simp
  have p2: "parse_date (2024, 6, 1) (Some ''2024-02-30'') = Inl (ValueError ''invalid date'')"
    by (simp add: parse_eval)
  have i: "iso (2024, 3, 1) = ''2024-03-01''" by (simp add: rendering_eval)
  have p3: "parse_date (2024, 6, 1) (Some ''2024-03-01'') = Inr (2024, 3, 1)"
    using ui_iso[OF v2] i by simp
  have s1: "strip ''  '' = []" by (simp add: strip_def is_space_def)
  have p4: "parse_date_ddmmyyyy (Some ''  '') = Inl (ValueError ''Empty date'')"
    using csv_empty[of "Some ''  ''"] s1 by simp
  have s2: "strip '' 1.2.2024 '' = ''1.2.2024''" by (simp add: strip_def is_space_def)
  have r2: "''1.2.2024'' \<in> set (dmy_renderings (2024, 2, 1))"
    by (simp add: rendering_eval)
  have p5: "parse_date_ddmmyyyy (Some '' 1.2.2024 '') = Inr (2024, 2, 1)"
    using csv[of "'' 1.2.2024 ''" "(2024, 2, 1)"] s2 r2 v3 by simp
  have d: "dmy (2024, 3, 1) = ''01.03.2024''" by (simp add: rendering_eval)
  have p6: "parse_date_ddmmyyyy (Some ''01.03.2024'') = Inr (2024, 3, 1)"
    using csv_dmy[OF v2] d by simp
  from v1 r1 p1 p2 v2 i p3 s1 p4 s2 r2 v3 p5 d p6 show ?thesis by (intro conjI)
qed

end
